theory Spec2Isabelle
  imports Main "HOL-Library.Word"
begin

section \<open>Data model\<close>

text \<open>
  Go's \<open>int\<close> and \<open>uint64\<close> are 64-bit words (the store targets 64-bit platforms, where
  the conversions \<open>int(sequence)\<close> and \<open>uint64(v)\<close> keep all 64 bits), byte slices are
  lists of 8-bit words, and Go strings are \<open>string\<close>.
\<close>

type_synonym byte = "8 word"
type_synonym bytes = "byte list"

text \<open>
  Modelled from the spec: the declaration of \<open>eventsourcing.Event\<close> is not among the
  sources; section 3 of the specification lists its attributes. \<open>Version\<close> is a Go
  \<open>int\<close>; payload and metadata are opaque.
\<close>

record Event =
  AggregateRootID :: string
  Version :: "64 word"
  Reason :: string
  AggregateType :: string
  Data :: string
  MetaData :: "(string \<times> string) list"

text \<open>
  Every error value the store can return. The first group is reported by the keyspace
  engine, \<open>CodecError\<close> by the codec, the others are built by the store with
  \<open>fmt.Errorf\<close> (the constructor carries what the message formats).
\<close>

datatype error =
    ErrDatabaseNotOpen
  | ErrBucketNameRequired
  | ErrKeyRequired
  | ErrKeyTooLarge
  | ErrValueTooLarge
  | CodecError string
  | EventsMultipleAggregates
  | EventsMultipleAggregateTypes
  | ConcurrencyError
  | EventHoldsNoReason
  | CouldNotCreateBucketFor string error
  | CouldNotCreateAggregateBucket
  | ExitSave
  | CouldNotSerializeEvent error
  | CouldNotDeserializeEvent error
  | CouldNotMarshal
  | GlobalBucketNotFound
  | CouldNotGetSequence string
  | CouldNotSaveEvent Event
  | CouldNotGetGlobalSequence
  | CouldNotSaveGlobalPointer string

text \<open>
  A Go call returns normally (\<open>Ok\<close>), returns a non-nil error (\<open>Err\<close>), or panics
  (\<open>Panic\<close>: an index out of range, a nil pointer dereference, a \<open>Must\<close> helper).
\<close>

datatype 'a result = Ok 'a | Err error | Panic

section \<open>Key encoding and key order\<close>

text \<open>
  \<open>itob\<close>: \<open>binary.BigEndian.PutUint64(b, uint64(v))\<close> stores
  \<open>byte(v >> 56)\<close>, ..., \<open>byte(v)\<close> into an 8-byte slice.
\<close>

definition itob :: "64 word \<Rightarrow> bytes" where
  "itob v = [ucast (drop_bit 56 v), ucast (drop_bit 48 v), ucast (drop_bit 40 v),
             ucast (drop_bit 32 v), ucast (drop_bit 24 v), ucast (drop_bit 16 v),
             ucast (drop_bit 8 v), ucast v]"

text \<open>
  The engine orders the keys of a bucket bytewise (\<open>bytes.Compare(a, b) < 0\<close>): the
  first differing byte decides, and a proper prefix is smaller.
\<close>

fun bytes_less :: "bytes \<Rightarrow> bytes \<Rightarrow> bool" where
  "bytes_less [] [] = False"
| "bytes_less [] (y # ys) = True"
| "bytes_less (x # xs) [] = False"
| "bytes_less (x # xs) (y # ys) = (x < y \<or> (x = y \<and> bytes_less xs ys))"

text \<open>The number a byte string denotes when read big-endian, continuing from \<open>acc\<close>.\<close>

fun be_val :: "nat \<Rightarrow> bytes \<Rightarrow> nat" where
  "be_val acc [] = acc"
| "be_val acc (d # ds) = be_val (acc * 256 + unat d) ds"

section \<open>Keyspace naming\<close>

definition globalEventOrderBucketName :: string where
  "globalEventOrderBucketName = ''global_event_order''"

text \<open>
  \<open>aggregateKey\<close> of the serializer-based store, \<open>bucketName\<close> of the JSON-based one.
  Both join the type, an underscore and the id. The comment where \<open>Save\<close> creates the
  bucket calls it \<open>events_aggregateType_aggregateID\<close>; the functions add no such prefix.
\<close>

definition aggregateKey :: "string \<Rightarrow> string \<Rightarrow> string" where
  "aggregateKey aggregateType aggregateID = aggregateType @ ''_'' @ aggregateID"

definition bucketName :: "string \<Rightarrow> string \<Rightarrow> string" where
  "bucketName aggregateType aggregateID = aggregateType @ ''_'' @ aggregateID"

section \<open>Concurrency validator\<close>

text \<open>
  The loop of \<open>validateEvents\<close>. The source returns \<open>(false, err)\<close> or
  \<open>(true, nil)\<close>; the model returns \<open>Err err\<close> or \<open>Ok ()\<close>.
\<close>

fun validateEvents_loop :: "string \<Rightarrow> string \<Rightarrow> 64 word \<Rightarrow> Event list \<Rightarrow> unit result" where
  "validateEvents_loop aggregateID aggregateType currentVersion [] = Ok ()"
| "validateEvents_loop aggregateID aggregateType currentVersion (event # rest) =
    (if AggregateRootID event \<noteq> aggregateID then Err EventsMultipleAggregates
     else if AggregateType event \<noteq> aggregateType then Err EventsMultipleAggregateTypes
     else if currentVersion + 1 \<noteq> Version event then Err ConcurrencyError
     else if Reason event = '''' then Err EventHoldsNoReason
     else validateEvents_loop aggregateID aggregateType (Version event) rest)"

text \<open>\<open>events[0]\<close> panics on an empty slice.\<close>

definition validateEvents :: "string \<Rightarrow> 64 word \<Rightarrow> Event list \<Rightarrow> unit result" where
  "validateEvents aggregateID currentVersion events =
    (case events of
       [] \<Rightarrow> Panic
     | first # _ \<Rightarrow> validateEvents_loop aggregateID (AggregateType first) currentVersion events)"

text \<open>
  The validator as section 4.2 of the specification words it, by position: the event at
  index \<open>i\<close> is checked against the version of the event before it (the baseline for the
  first one), and the batch is rejected when some event has a foreign aggregate id, a type
  other than the first event's, a version that is not the successor, or an empty reason.
\<close>

definition baseline_at :: "64 word \<Rightarrow> Event list \<Rightarrow> nat \<Rightarrow> 64 word" where
  "baseline_at currentVersion events i =
    (if i = 0 then currentVersion else Version (events ! (i - 1)))"

definition offending :: "string \<Rightarrow> string \<Rightarrow> 64 word \<Rightarrow> Event list \<Rightarrow> nat \<Rightarrow> bool" where
  "offending aggregateID aggregateType currentVersion events i \<longleftrightarrow>
     AggregateRootID (events ! i) \<noteq> aggregateID
   \<or> AggregateType (events ! i) \<noteq> aggregateType
   \<or> Version (events ! i) \<noteq> baseline_at currentVersion events i + 1
   \<or> Reason (events ! i) = ''''"

definition spec_rejects :: "string \<Rightarrow> 64 word \<Rightarrow> Event list \<Rightarrow> bool" where
  "spec_rejects aggregateID currentVersion events \<longleftrightarrow>
     list_ex (offending aggregateID (AggregateType (events ! 0)) currentVersion events)
       [0..<length events]"

section \<open>Keyspace engine\<close>

text \<open>
  Modelled from the spec: the keyspace engine (the \<open>bbolt\<close> package) is an external
  collaborator whose code is not among the sources. Section 2 of the specification
  describes it: named ordered keyspaces with put, a cursor, a per-keyspace sequence
  generator, and atomic transactions with rollback. A bucket holds its sequence counter
  and its entries, kept in ascending key order; a transaction works on a private copy of
  the buckets, which \<open>Commit\<close> installs and \<open>Rollback\<close> discards. Bucket handles are
  bucket names looked up in the transaction, so two handles for one name denote one bucket.
  \<open>Begin\<close> fails on a closed database; failures of the file system are not modelled, so
  \<open>Commit\<close> and \<open>NextSequence\<close> do not fail, and \<open>Put\<close> fails on the key and value
  sizes the engine refuses.
\<close>

record Bucket =
  sequence :: "64 word"
  entries :: "(bytes \<times> bytes) list"

type_synonym Tx = "string \<rightharpoonup> Bucket"

record DB =
  opened :: bool
  buckets :: Tx

definition Begin :: "DB \<Rightarrow> Tx result" where
  "Begin db = (if opened db then Ok (buckets db) else Err ErrDatabaseNotOpen)"

definition Commit :: "DB \<Rightarrow> Tx \<Rightarrow> DB result" where
  "Commit db tx = Ok (db\<lparr>buckets := tx\<rparr>)"

definition CreateBucketIfNotExists :: "Tx \<Rightarrow> string \<Rightarrow> Tx result" where
  "CreateBucketIfNotExists tx name =
    (if name = [] then Err ErrBucketNameRequired
     else case tx name of
       Some b \<Rightarrow> Ok tx
     | None \<Rightarrow> Ok (tx(name \<mapsto> \<lparr>sequence = 0, entries = []\<rparr>)))"

text \<open>A method called through a nil bucket handle dereferences nil and panics.\<close>

definition NextSequence :: "Tx \<Rightarrow> string \<Rightarrow> (64 word \<times> Tx) result" where
  "NextSequence tx name =
    (case tx name of
       None \<Rightarrow> Panic
     | Some b \<Rightarrow> Ok (sequence b + 1, tx(name \<mapsto> b\<lparr>sequence := sequence b + 1\<rparr>)))"

fun put_entry :: "bytes \<Rightarrow> bytes \<Rightarrow> (bytes \<times> bytes) list \<Rightarrow> (bytes \<times> bytes) list" where
  "put_entry k v [] = [(k, v)]"
| "put_entry k v ((k', v') # rest) =
    (if k = k' then (k, v) # rest
     else if bytes_less k k' then (k, v) # (k', v') # rest
     else (k', v') # put_entry k v rest)"

definition Put :: "Tx \<Rightarrow> string \<Rightarrow> bytes \<Rightarrow> bytes \<Rightarrow> Tx result" where
  "Put tx name key val =
    (case tx name of
       None \<Rightarrow> Panic
     | Some b \<Rightarrow>
        if length key = 0 then Err ErrKeyRequired
        else if int (length key) > 32768 then Err ErrKeyTooLarge
        else if int (length val) > 2147483646 then Err ErrValueTooLarge
        else Ok (tx(name \<mapsto> b\<lparr>entries := put_entry key val (entries b)\<rparr>)))"

text \<open>
  A cursor is the list of entries from its position on: \<open>Seek\<close> moves to the first key
  not smaller than the sought one, \<open>Next\<close> drops the head, \<open>Last\<close> is the final entry,
  and the nil key is the empty list (or \<open>None\<close>).
\<close>

fun cursor_Seek :: "bytes \<Rightarrow> (bytes \<times> bytes) list \<Rightarrow> (bytes \<times> bytes) list" where
  "cursor_Seek k [] = []"
| "cursor_Seek k ((k', v) # rest) =
    (if bytes_less k' k then cursor_Seek k rest else (k', v) # rest)"

definition cursor_Last :: "(bytes \<times> bytes) list \<Rightarrow> (bytes \<times> bytes) option" where
  "cursor_Last es = (if es = [] then None else Some (last es))"

definition lookup :: "(bytes \<times> bytes) list \<Rightarrow> bytes \<Rightarrow> bytes option" where
  "lookup es k = map_of es k"

definition sequence_of :: "Tx \<Rightarrow> string \<Rightarrow> 64 word" where
  "sequence_of tx name = (case tx name of None \<Rightarrow> 0 | Some b \<Rightarrow> sequence b)"

definition entries_of :: "Tx \<Rightarrow> string \<Rightarrow> (bytes \<times> bytes) list" where
  "entries_of tx name = (case tx name of None \<Rightarrow> [] | Some b \<Rightarrow> entries b)"

text \<open>\<open>MustOpenBBolt\<close> on a new file: the database holds the empty global bucket.\<close>

definition MustOpenBBolt :: DB where
  "MustOpenBBolt =
    \<lparr>opened = True,
     buckets = Map.empty(globalEventOrderBucketName \<mapsto> \<lparr>sequence = 0, entries = []\<rparr>)\<rparr>"

section \<open>The serializer-based store\<close>

text \<open>The \<open>eventstore.EventSerializer\<close> interface; its implementation is a parameter.\<close>

record EventSerializer =
  SerializeEvent :: "Event \<Rightarrow> bytes result"
  DeserializeEvent :: "bytes \<Rightarrow> Event result"

definition createBucket :: "string \<Rightarrow> Tx \<Rightarrow> Tx result" where
  "createBucket name tx =
    (case CreateBucketIfNotExists tx name of
       Ok tx' \<Rightarrow> Ok tx'
     | Err err \<Rightarrow> Err (CouldNotCreateBucketFor name err)
     | Panic \<Rightarrow> Panic)"

text \<open>The write loop of \<open>Save\<close>: one pass per event, in order.\<close>

fun Save_loop :: "EventSerializer \<Rightarrow> string \<Rightarrow> Event list \<Rightarrow> Tx \<Rightarrow> Tx result" where
  "Save_loop s name [] tx = Ok tx"
| "Save_loop s name (event # rest) tx =
    (case NextSequence tx name of
       Panic \<Rightarrow> Panic
     | Err _ \<Rightarrow> Err (CouldNotGetSequence name)
     | Ok (seq, tx1) \<Rightarrow>
    (case SerializeEvent s event of
       Panic \<Rightarrow> Panic
     | Err err \<Rightarrow> Err (CouldNotSerializeEvent err)
     | Ok val \<Rightarrow>
    (case Put tx1 name (itob seq) val of
       Panic \<Rightarrow> Panic
     | Err _ \<Rightarrow> Err (CouldNotSaveEvent event)
     | Ok tx2 \<Rightarrow>
    (case NextSequence tx2 globalEventOrderBucketName of
       Panic \<Rightarrow> Panic
     | Err _ \<Rightarrow> Err CouldNotGetGlobalSequence
     | Ok (globalSequence, tx3) \<Rightarrow>
    (case Put tx3 globalEventOrderBucketName (itob globalSequence) val of
       Panic \<Rightarrow> Panic
     | Err _ \<Rightarrow> Err (CouldNotSaveGlobalPointer name)
     | Ok tx4 \<Rightarrow> Save_loop s name rest tx4)))))"

text \<open>
  The version of the last stored event: \<open>cursor.Last()\<close>, then \<open>DeserializeEvent\<close>;
  0 for an empty bucket.
\<close>

definition lastVersion :: "EventSerializer \<Rightarrow> (bytes \<times> bytes) list \<Rightarrow> 64 word result" where
  "lastVersion s es =
    (case cursor_Last es of
       None \<Rightarrow> Ok 0
     | Some (k, obj) \<Rightarrow>
        (case DeserializeEvent s obj of
           Panic \<Rightarrow> Panic
         | Err err \<Rightarrow> Err (CouldNotSerializeEvent err)
         | Ok event \<Rightarrow> Ok (Version event)))"

text \<open>
  Modelled from the spec: \<open>eventstore.ValidateEvents\<close>, which this store calls, is not
  among the sources. It is the concurrency validator of section 4.2 of the specification,
  the function the JSON-based store has as its method \<open>validateEvents\<close>; the model
  uses that one.

  \<open>Save\<close> returns its error and the database it leaves behind. Every return before
  \<open>tx.Commit()\<close> runs the deferred \<open>tx.Rollback()\<close>, so the database is the one the call
  started with; a panic unwinds through the same deferred call.
\<close>

definition Save :: "EventSerializer \<Rightarrow> DB \<Rightarrow> Event list \<Rightarrow> unit result \<times> DB" where
  "Save s db events =
    (case events of
       [] \<Rightarrow> (Ok (), db)
     | first # _ \<Rightarrow>
        let aggregateType = AggregateType first;
            aggregateID = AggregateRootID first;
            name = aggregateKey aggregateType aggregateID
        in
        (case Begin db of
           Panic \<Rightarrow> (Panic, db)
         | Err err \<Rightarrow> (Err err, db)
         | Ok tx \<Rightarrow>
        (case (if tx name = None then createBucket name tx else Ok tx) of
           Panic \<Rightarrow> (Panic, db)
         | Err _ \<Rightarrow> (Err CouldNotCreateAggregateBucket, db)
         | Ok tx0 \<Rightarrow>
        (case tx0 name of
           None \<Rightarrow> (Panic, db)
         | Some evBucket \<Rightarrow>
        (case lastVersion s (entries evBucket) of
           Panic \<Rightarrow> (Panic, db)
         | Err err \<Rightarrow> (Err err, db)
         | Ok currentVersion \<Rightarrow>
        (case validateEvents aggregateID currentVersion events of
           Panic \<Rightarrow> (Panic, db)
         | Err err \<Rightarrow> (Err err, db)
         | Ok _ \<Rightarrow>
        (case tx0 globalEventOrderBucketName of
           None \<Rightarrow> (Err GlobalBucketNotFound, db)
         | Some _ \<Rightarrow>
        (case Save_loop s name events tx0 of
           Panic \<Rightarrow> (Panic, db)
         | Err err \<Rightarrow> (Err err, db)
         | Ok tx1 \<Rightarrow>
        (case Commit db tx1 of
           Panic \<Rightarrow> (Panic, db)
         | Err err \<Rightarrow> (Err err, db)
         | Ok db' \<Rightarrow> (Ok (), db'))))))))))"

text \<open>The read loop of \<open>Get\<close>, from the cursor's position to the end of the bucket.\<close>

fun Get_loop :: "EventSerializer \<Rightarrow> (bytes \<times> bytes) list \<Rightarrow> Event list \<Rightarrow> Event list result" where
  "Get_loop s [] events = Ok events"
| "Get_loop s ((k, obj) # rest) events =
    (case DeserializeEvent s obj of
       Panic \<Rightarrow> Panic
     | Err err \<Rightarrow> Err (CouldNotDeserializeEvent err)
     | Ok event \<Rightarrow> Get_loop s rest (events @ [event]))"

text \<open>
  \<open>Get\<close> does not test the handle \<open>tx.Bucket\<close> returns: \<open>evBucket.Cursor()\<close> on the
  nil handle of an absent bucket panics.
\<close>

definition Get :: "EventSerializer \<Rightarrow> DB \<Rightarrow> string \<Rightarrow> string \<Rightarrow> 64 word \<Rightarrow> Event list result" where
  "Get s db aggregateID aggregateType afterVersion =
    (let name = aggregateKey aggregateType aggregateID in
     case Begin db of
       Panic \<Rightarrow> Panic
     | Err err \<Rightarrow> Err err
     | Ok tx \<Rightarrow>
        (case tx name of
           None \<Rightarrow> Panic
         | Some evBucket \<Rightarrow>
            let firstEvent = afterVersion + 1
            in Get_loop s (cursor_Seek (itob firstEvent) (entries evBucket)) []))"

text \<open>
  The read loop of \<open>GlobalGet\<close>. The counter is compared with \<open>count\<close> after the event
  has been appended; a decoding error returns nil (the empty list). \<open>count\<close> and the
  counter are Go \<open>int\<close>s; the counter never exceeds the number of entries, so they are
  modelled as integers.
\<close>

fun GlobalGet_loop ::
  "EventSerializer \<Rightarrow> int \<Rightarrow> (bytes \<times> bytes) list \<Rightarrow> Event list \<Rightarrow> int \<Rightarrow> Event list result" where
  "GlobalGet_loop s count [] events counter = Ok events"
| "GlobalGet_loop s count ((k, obj) # rest) events counter =
    (case DeserializeEvent s obj of
       Panic \<Rightarrow> Panic
     | Err _ \<Rightarrow> Ok []
     | Ok event \<Rightarrow>
        if counter + 1 \<ge> count then Ok (events @ [event])
        else GlobalGet_loop s count rest (events @ [event]) (counter + 1))"

definition GlobalGet :: "EventSerializer \<Rightarrow> DB \<Rightarrow> 64 word \<Rightarrow> int \<Rightarrow> Event list result" where
  "GlobalGet s db start count =
    (case Begin db of
       Panic \<Rightarrow> Panic
     | Err _ \<Rightarrow> Ok []
     | Ok tx \<Rightarrow>
        (case tx globalEventOrderBucketName of
           None \<Rightarrow> Panic
         | Some evBucket \<Rightarrow>
            GlobalGet_loop s count (cursor_Seek (itob start) (entries evBucket)) [] 0))"

definition Close :: "DB \<Rightarrow> unit result \<times> DB" where
  "Close db = (Ok (), db\<lparr>opened := False\<rparr>)"

section \<open>The JSON-based store\<close>

text \<open>
  The second store encodes with \<open>json.Marshal\<close> and \<open>eventstore.MustCompress\<close> and
  decodes with \<open>eventstore.MustDecompress\<close> and \<open>json.Unmarshal\<close>; the four are
  parameters (a \<open>Must\<close> helper panics instead of returning an error). In the global log it
  stores a pointer, the bucket name, a colon and the local sequence number in decimal.
\<close>

record JsonCodec =
  json_Marshal :: "Event \<Rightarrow> bytes result"
  json_Unmarshal :: "bytes \<Rightarrow> Event result"
  MustCompress :: "bytes \<Rightarrow> bytes result"
  MustDecompress :: "bytes \<Rightarrow> bytes result"

text \<open>\<open>strconv.FormatUint(n, 10)\<close> and the conversion \<open>[]byte(s)\<close>.\<close>

function FormatUint :: "nat \<Rightarrow> string" where
  "FormatUint n =
    (if n < 10 then [char_of (48 + n)]
     else FormatUint (n div 10) @ [char_of (48 + n mod 10)])"
  by pat_completeness auto
termination
  by (relation "measure (\<lambda>n. n)") auto

declare FormatUint.simps [simp del]

definition string_bytes :: "string \<Rightarrow> bytes" where
  "string_bytes str = map (\<lambda>c. of_nat (of_char c)) str"

fun Save_json_loop :: "JsonCodec \<Rightarrow> string \<Rightarrow> Event list \<Rightarrow> Tx \<Rightarrow> Tx result" where
  "Save_json_loop c name [] tx = Ok tx"
| "Save_json_loop c name (event # rest) tx =
    (case json_Marshal c event of
       Panic \<Rightarrow> Panic
     | Err _ \<Rightarrow> Err CouldNotMarshal
     | Ok obj \<Rightarrow>
    (case NextSequence tx name of
       Panic \<Rightarrow> Panic
     | Err _ \<Rightarrow> Err (CouldNotGetSequence name)
     | Ok (seq, tx1) \<Rightarrow>
    (case MustCompress c obj of
       Panic \<Rightarrow> Panic
     | Err err \<Rightarrow> Err err
     | Ok val \<Rightarrow>
    (case Put tx1 name (itob seq) val of
       Panic \<Rightarrow> Panic
     | Err _ \<Rightarrow> Err (CouldNotSaveEvent event)
     | Ok tx2 \<Rightarrow>
    (case NextSequence tx2 globalEventOrderBucketName of
       Panic \<Rightarrow> Panic
     | Err _ \<Rightarrow> Err CouldNotGetGlobalSequence
     | Ok (globalSequence, tx3) \<Rightarrow>
        let globalSequenceValue = name @ '':'' @ FormatUint (unat seq)
        in
    (case Put tx3 globalEventOrderBucketName (itob globalSequence)
            (string_bytes globalSequenceValue) of
       Panic \<Rightarrow> Panic
     | Err _ \<Rightarrow> Err (CouldNotSaveGlobalPointer name)
     | Ok tx4 \<Rightarrow> Save_json_loop c name rest tx4))))))"

definition lastVersion_json :: "JsonCodec \<Rightarrow> (bytes \<times> bytes) list \<Rightarrow> 64 word result" where
  "lastVersion_json c es =
    (case cursor_Last es of
       None \<Rightarrow> Ok 0
     | Some (k, obj) \<Rightarrow>
        (case MustDecompress c obj of
           Panic \<Rightarrow> Panic
         | Err err \<Rightarrow> Err err
         | Ok jsonObj \<Rightarrow>
            (case json_Unmarshal c jsonObj of
               Panic \<Rightarrow> Panic
             | Err err \<Rightarrow> Err err
             | Ok event \<Rightarrow> Ok (Version event))))"

definition Save_json :: "JsonCodec \<Rightarrow> DB \<Rightarrow> Event list \<Rightarrow> unit result \<times> DB" where
  "Save_json c db events =
    (case events of
       [] \<Rightarrow> (Ok (), db)
     | first # _ \<Rightarrow>
        let aggregateType = AggregateType first;
            aggregateID = AggregateRootID first;
            name = bucketName aggregateType aggregateID
        in
        (case Begin db of
           Panic \<Rightarrow> (Panic, db)
         | Err err \<Rightarrow> (Err err, db)
         | Ok tx \<Rightarrow>
        (case (if tx name = None then createBucket name tx else Ok tx) of
           Panic \<Rightarrow> (Panic, db)
         | Err _ \<Rightarrow> (Err ExitSave, db)
         | Ok tx0 \<Rightarrow>
        (case tx0 name of
           None \<Rightarrow> (Panic, db)
         | Some evBucket \<Rightarrow>
        (case lastVersion_json c (entries evBucket) of
           Panic \<Rightarrow> (Panic, db)
         | Err err \<Rightarrow> (Err err, db)
         | Ok currentVersion \<Rightarrow>
        (case validateEvents aggregateID currentVersion events of
           Panic \<Rightarrow> (Panic, db)
         | Err err \<Rightarrow> (Err err, db)
         | Ok _ \<Rightarrow>
        (case tx0 globalEventOrderBucketName of
           None \<Rightarrow> (Err GlobalBucketNotFound, db)
         | Some _ \<Rightarrow>
        (case Save_json_loop c name events tx0 of
           Panic \<Rightarrow> (Panic, db)
         | Err err \<Rightarrow> (Err err, db)
         | Ok tx1 \<Rightarrow>
        (case Commit db tx1 of
           Panic \<Rightarrow> (Panic, db)
         | Err err \<Rightarrow> (Err err, db)
         | Ok db' \<Rightarrow> (Ok (), db'))))))))))"

section \<open>Snapshots\<close>

text \<open>
  The \<open>snapshotStore\<close> interface is a parameter: an implementation with a state of its
  own. An \<open>interface{}\<close> value is nil, a plain value, or a pointer to a cell of the
  caller's memory (what a caller passes to have a snapshot loaded into).
\<close>

datatype 'v iface = INil | IVal 'v | IPtr nat

type_synonym 'v memory = "nat \<rightharpoonup> 'v"

record ('st, 'v) snapshotStore =
  store_Save :: "string \<Rightarrow> 'v iface \<Rightarrow> 'st \<Rightarrow> error option \<times> 'st"
  store_Get :: "string \<Rightarrow> 'st \<Rightarrow> ('v iface \<times> error option) \<times> 'st"

text \<open>The local variables of \<open>Snapshot.Get\<close>: the parameter \<open>a\<close> and \<open>err\<close>.\<close>

record 'v Get_frame =
  var_a :: "'v iface"
  var_err :: "error option"

definition Snapshot_Save ::
  "('st, 'v) snapshotStore \<Rightarrow> string \<Rightarrow> 'v iface \<Rightarrow> 'st \<times> 'v memory \<Rightarrow> error option \<times> 'st \<times> 'v memory" where
  "Snapshot_Save s aggregateID a state =
    (let (err, st') = store_Save s aggregateID a (fst state) in (err, st', snd state))"

text \<open>
  \<open>a, err := s.store.Get(id)\<close> assigns both results to variables of the call's own
  frame, and \<open>return err\<close> hands back the second; nothing is written through \<open>a\<close>.
\<close>

definition Snapshot_Get ::
  "('st, 'v) snapshotStore \<Rightarrow> string \<Rightarrow> 'v iface \<Rightarrow> 'st \<times> 'v memory \<Rightarrow> error option \<times> 'st \<times> 'v memory" where
  "Snapshot_Get s aggregateID a state =
    (let frame0 = \<lparr>var_a = a, var_err = None\<rparr>;
         (loaded, st') = store_Get s aggregateID (fst state);
         frame1 = frame0\<lparr>var_a := fst loaded, var_err := snd loaded\<rparr>
     in (var_err frame1, st', snd state))"

section \<open>Auxiliary notions for the statements\<close>

text \<open>A call that returned a non-nil error.\<close>

definition is_error :: "'a result \<Rightarrow> bool" where
  "is_error r = (case r of Err _ \<Rightarrow> True | _ \<Rightarrow> False)"

text \<open>
  What a run of puts leaves in a bucket: the values \<open>vs\<close>, in order, under the keys of
  the sequence numbers that follow \<open>s\<close>.
\<close>

fun put_run :: "64 word \<Rightarrow> bytes list \<Rightarrow> (bytes \<times> bytes) list \<Rightarrow> (bytes \<times> bytes) list" where
  "put_run s [] es = es"
| "put_run s (v # vs) es = put_run (s + 1) vs (put_entry (itob (s + 1)) v es)"

text \<open>The same run written to an empty bucket, as the list of its entries.\<close>

fun run_entries :: "64 word \<Rightarrow> bytes list \<Rightarrow> (bytes \<times> bytes) list" where
  "run_entries s [] = []"
| "run_entries s (v # vs) = (itob (s + 1), v) # run_entries (s + 1) vs"

text \<open>
  The pointers the JSON-based store writes to the global log for \<open>n\<close> events whose
  local sequence numbers follow \<open>s\<close>.
\<close>

fun pointers :: "string \<Rightarrow> 64 word \<Rightarrow> nat \<Rightarrow> bytes list" where
  "pointers name s 0 = []"
| "pointers name s (Suc n) =
    string_bytes (name @ '':'' @ FormatUint (unat (s + 1))) # pointers name (s + 1) n"

text \<open>
  Sample data: the events of the specification's scenario for aggregate
  \<open>("user", "u1")\<close>, an event of an aggregate of type \<open>global_event\<close> with id \<open>order\<close>,
  and a serializer that knows these three events.
\<close>

definition ev_created :: Event where
  "ev_created = \<lparr>AggregateRootID = ''u1'', Version = 1, Reason = ''Created'',
     AggregateType = ''user'', Data = ''{}'', MetaData = []\<rparr>"

definition ev_renamed :: Event where
  "ev_renamed = \<lparr>AggregateRootID = ''u1'', Version = 2, Reason = ''Renamed'',
     AggregateType = ''user'', Data = ''{}'', MetaData = []\<rparr>"

definition ev_order :: Event where
  "ev_order = \<lparr>AggregateRootID = ''order'', Version = 1, Reason = ''Created'',
     AggregateType = ''global_event'', Data = ''{}'', MetaData = []\<rparr>"

definition table_serializer :: EventSerializer where
  "table_serializer =
    \<lparr>SerializeEvent = (\<lambda>e.
        if e = ev_created then Ok [1]
        else if e = ev_renamed then Ok [2]
        else if e = ev_order then Ok [3]
        else Err (CodecError ''unknown event'')),
     DeserializeEvent = (\<lambda>b.
        if b = [1] then Ok ev_created
        else if b = [2] then Ok ev_renamed
        else if b = [3] then Ok ev_order
        else Err (CodecError ''unknown payload''))\<rparr>"

definition table_codec :: JsonCodec where
  "table_codec =
    \<lparr>json_Marshal = SerializeEvent table_serializer,
     json_Unmarshal = DeserializeEvent table_serializer,
     MustCompress = Ok,
     MustDecompress = Ok\<rparr>"

text \<open>A snapshot store over a single slot, for the snapshot facility.\<close>

definition slot_store :: "(string iface, string) snapshotStore" where
  "slot_store =
    \<lparr>store_Save = (\<lambda>aggregateID a st. (None, a)),
     store_Get = (\<lambda>aggregateID st. ((st, None), st))\<rparr>"

section \<open>The key encoding preserves order\<close>

lemma be_val_bounds:
  "be_val acc ds < (acc + 1) * 256 ^ length ds \<and> acc * 256 ^ length ds \<le> be_val acc ds"
proof (induction ds arbitrary: acc)
  case Nil
  then show ?case by simp
next
  case (Cons d ds)
  define P :: nat where "P = 256 ^ length ds"
  have d: "unat d < 256" using unsigned_less [of d, where ?'a = nat] by simp
  have up: "be_val (acc * 256 + unat d) ds < (acc * 256 + unat d + 1) * P"
    and lo: "(acc * 256 + unat d) * P \<le> be_val (acc * 256 + unat d) ds"
    using Cons.IH [of "acc * 256 + unat d"] by (simp_all add: P_def)
  have "(acc * 256 + unat d + 1) * P \<le> ((acc + 1) * 256) * P"
    by (rule mult_le_mono1) (use d in simp)
  also have "\<dots> = (acc + 1) * 256 ^ length (d # ds)"
    by (simp add: P_def algebra_simps)
  finally have A: "be_val acc (d # ds) < (acc + 1) * 256 ^ length (d # ds)"
    using up by simp
  have "acc * 256 ^ length (d # ds) = (acc * 256) * P"
    by (simp add: P_def algebra_simps)
  also have "\<dots> \<le> (acc * 256 + unat d) * P"
    by (rule mult_le_mono1) simp
  finally have B: "acc * 256 ^ length (d # ds) \<le> be_val acc (d # ds)"
    using lo by simp
  from A B show ?case by blast
qed

lemma be_val_mono_acc:
  assumes "a < b" and "length xs = length ys"
  shows "be_val a xs < be_val b ys"
proof -
  have "be_val a xs < (a + 1) * 256 ^ length xs" using be_val_bounds by blast
  also have "\<dots> \<le> b * 256 ^ length ys"
    using assms by (intro mult_le_mono) simp_all
  also have "\<dots> \<le> be_val b ys" using be_val_bounds by blast
  finally show ?thesis .
qed

lemma bytes_less_be_val:
  "length xs = length ys \<Longrightarrow> bytes_less xs ys \<longleftrightarrow> be_val acc xs < be_val acc ys"
proof (induction xs ys arbitrary: acc rule: bytes_less.induct)
  case (4 x xs y ys)
  then have len: "length xs = length ys" by simp
  consider "x < y" | "x = y" | "y < x" by fastforce
  then show ?case
  proof cases
    case 1
    then have "acc * 256 + unat x < acc * 256 + unat y" by (simp add: word_less_nat_alt)
    from be_val_mono_acc [OF this len] 1 show ?thesis by simp
  next
    case 2
    with 4 len show ?thesis by simp
  next
    case 3
    then have "acc * 256 + unat y < acc * 256 + unat x" by (simp add: word_less_nat_alt)
    from be_val_mono_acc [OF this len [symmetric]] 3 show ?thesis by auto
  qed
qed simp_all

lemma byte_of: "unat (ucast (drop_bit k (v::64 word)) :: 8 word) = (unat v div 2 ^ k) mod 256"
  by (simp only: unsigned_ucast_eq unat_drop_bit_eq) (simp add: take_bit_eq_mod drop_bit_eq_div)

lemma be_val_itob: "be_val 0 (itob v) = unat v"
proof -
  define n where "n = unat v"
  have n: "n < 2 ^ 64" unfolding n_def using unsigned_less [of v, where ?'a = nat] by simp
  have b7: "unat (ucast v :: 8 word) = n mod 256"
    by (simp add: unsigned_ucast_eq take_bit_eq_mod n_def)
  have step: "(n div 2 ^ (k + 8)) * 256 + n div 2 ^ k mod 256 = n div 2 ^ k" for k
    by (simp add: power_add div_mult2_eq)
  have top: "n div 2 ^ 56 mod 256 = n div 2 ^ 56"
    using n by (simp add: less_mult_imp_div_less)
  have "be_val 0 (itob v) =
    (((((((n div 2 ^ 56 mod 256) * 256 + n div 2 ^ 48 mod 256) * 256 + n div 2 ^ 40 mod 256) * 256
      + n div 2 ^ 32 mod 256) * 256 + n div 2 ^ 24 mod 256) * 256 + n div 2 ^ 16 mod 256) * 256
      + n div 2 ^ 8 mod 256) * 256 + n mod 256"
    unfolding itob_def be_val.simps byte_of b7 n_def by simp
  also have "\<dots> = n"
    unfolding top
    using step [of 48] step [of 40] step [of 32] step [of 24] step [of 16] step [of 8] step [of 0]
    by simp
  finally show ?thesis by (simp add: n_def)
qed

lemma length_itob: "length (itob v) = 8"
  by (simp add: itob_def)

lemma bytes_less_itob: "bytes_less (itob a) (itob b) \<longleftrightarrow> a < b"
  using bytes_less_be_val [of "itob a" "itob b" 0]
  by (simp add: length_itob be_val_itob word_less_nat_alt)

lemma itob_inj: "itob a = itob b \<longleftrightarrow> a = b"
  by (metis be_val_itob word_unat_eq_iff)

text \<open>
  Claim C9: \<open>itob\<close> is strictly order-preserving on the representable range. For Go
  integers \<open>a\<close> and \<open>b\<close> with \<open>0 \<le> a < b < 2^63\<close>, the key \<open>itob a\<close> is bytewise
  smaller than \<open>itob b\<close> (and not the other way round), so the engine's bytewise key
  order is the numeric order of the sequence numbers.
\<close>

theorem itob_order_preserving:
  fixes a b :: int
  assumes "0 \<le> a" and "a < b" and "b < 2 ^ 63"
  shows "bytes_less (itob (word_of_int a)) (itob (word_of_int b))
       \<and> \<not> bytes_less (itob (word_of_int b)) (itob (word_of_int a))"
proof -
  have "uint (word_of_int a :: 64 word) = a" "uint (word_of_int b :: 64 word) = b"
    using assms by (simp_all add: uint_word_of_int take_bit_eq_mod)
  then have "(word_of_int a :: 64 word) < word_of_int b"
    using assms by (simp add: word_less_def)
  then show ?thesis
    by (simp add: bytes_less_itob)
qed

text \<open>The keys of 255 and 256, which differ in their last two bytes.\<close>

theorem itob_order_preserving_witness:
  "(0::int) \<le> 255 \<and> (255::int) < 256 \<and> (256::int) < 2 ^ 63
   \<and> bytes_less (itob (word_of_int 255)) (itob (word_of_int 256))
   \<and> \<not> bytes_less (itob (word_of_int 256)) (itob (word_of_int 255))"
  using itob_order_preserving [of 255 256] by simp

section \<open>Keyspace names\<close>






section \<open>Appending\<close>

text \<open>
  Claim C7: in every state of the store, saving the empty batch succeeds and returns the
  database it was given: no keyspace is created, no entry is written and no sequence
  counter advances. This holds for both stores.
\<close>

theorem Save_empty_batch:
  "Save s db [] = (Ok (), db) \<and> Save_json c db [] = (Ok (), db)"
  by (simp add: Save_def Save_json_def)

section \<open>Reading\<close>

text \<open>
  Claim C5 says that \<open>Get\<close> for an aggregate without a keyspace returns an empty
  sequence and does not crash. On a newly opened store, where the keyspace \<open>user_u1\<close>
  does not exist, \<open>Get\<close> panics: it calls \<open>Cursor\<close> on the nil handle.
\<close>

theorem Get_absent_keyspace_panics:
  "buckets MustOpenBBolt (aggregateKey ''user'' ''u1'') = None
   \<and> Get s MustOpenBBolt ''u1'' ''user'' 0 = Panic"
  by (simp add: Get_def Begin_def MustOpenBBolt_def aggregateKey_def
      globalEventOrderBucketName_def)

section \<open>Snapshots\<close>

text \<open>
  Claim C10: \<open>Snapshot.Get\<close> never delivers the loaded snapshot. Whatever argument \<open>a\<close>
  the caller passes, the call returns the error of the store's \<open>Get\<close> and nothing
  else: the loaded value is not part of the result, and the caller's memory is the one
  the call started with.
\<close>

theorem Snapshot_Get_returns_error_only:
  "Snapshot_Get s aggregateID a (st, mem)
     = (snd (fst (store_Get s aggregateID st)), snd (store_Get s aggregateID st), mem)"
  by (simp add: Snapshot_Get_def split: prod.splits)

text \<open>
  A caller that passes a pointer to a cell of its memory finds the cell as it was: the
  store holds the snapshot \<open>new\<close>, and the cell still holds \<open>old\<close> after the call.
\<close>

lemma Snapshot_Get_leaves_target:
  "Snapshot_Get slot_store ''u1'' (IPtr 0) (IVal ''new'', [0 \<mapsto> ''old''])
     = (None, IVal ''new'', [0 \<mapsto> ''old''])"
  by (simp add: Snapshot_Get_def slot_store_def)


section \<open>The concurrency validator\<close>

lemma list_ex_upt_Suc:
  "list_ex P [0..<Suc n] \<longleftrightarrow> P 0 \<or> list_ex (\<lambda>i. P (Suc i)) [0..<n]"
  unfolding list_ex_iff set_upt
proof
  assume "\<exists>i\<in>{0..<Suc n}. P i"
  then obtain i where "i \<in> {0..<Suc n}" "P i" by blast
  then show "P 0 \<or> (\<exists>i\<in>{0..<n}. P (Suc i))" by (cases i) auto
next
  assume "P 0 \<or> (\<exists>i\<in>{0..<n}. P (Suc i))"
  then show "\<exists>i\<in>{0..<Suc n}. P i" by auto
qed

lemma offending_Cons_0:
  "offending aid ty cv (e # es) 0 \<longleftrightarrow>
     AggregateRootID e \<noteq> aid \<or> AggregateType e \<noteq> ty \<or> Version e \<noteq> cv + 1 \<or> Reason e = ''''"
  by (simp add: offending_def baseline_at_def)

lemma offending_Cons_Suc:
  "offending aid ty cv (e # es) (Suc i) \<longleftrightarrow> offending aid ty (Version e) es i"
  by (cases i) (simp_all add: offending_def baseline_at_def)

lemma validateEvents_loop_verdict:
  "(is_error (validateEvents_loop aid ty cv es) \<longleftrightarrow>
      list_ex (offending aid ty cv es) [0..<length es])
   \<and> (\<not> is_error (validateEvents_loop aid ty cv es) \<longrightarrow> validateEvents_loop aid ty cv es = Ok ())"
proof (induction es arbitrary: cv)
  case Nil
  then show ?case by (simp add: is_error_def)
next
  case (Cons e es)
  show ?case
    unfolding length_Cons list_ex_upt_Suc offending_Cons_0 offending_Cons_Suc
    using Cons.IH [of "Version e"]
    by (auto simp: is_error_def)
qed

text \<open>
  Claim C2: for every aggregate id, baseline version and non-empty batch, the validator
  returns an error exactly when some event, checked against the version of the event
  before it (the baseline for the first), has a foreign aggregate id, a type other than
  the first event's, a version that is not the successor of that version, or an empty
  reason; otherwise it returns success.
\<close>

theorem validateEvents_rejects_iff:
  assumes "events \<noteq> []"
  shows "(is_error (validateEvents aggregateID currentVersion events)
            \<longleftrightarrow> spec_rejects aggregateID currentVersion events)
       \<and> (\<not> spec_rejects aggregateID currentVersion events
            \<longrightarrow> validateEvents aggregateID currentVersion events = Ok ())"
proof -
  from assms obtain first rest where ev: "events = first # rest"
    by (cases events) auto
  have ty: "AggregateType (events ! 0) = AggregateType first"
    by (simp add: ev)
  have v: "validateEvents aggregateID currentVersion events
    = validateEvents_loop aggregateID (AggregateType first) currentVersion events"
    by (simp add: validateEvents_def ev)
  show ?thesis
    using validateEvents_loop_verdict [of aggregateID "AggregateType first" currentVersion events]
    unfolding spec_rejects_def ty v
    by simp
qed

text \<open>
  The scenario's batch is accepted on baseline 0 and rejected on baseline 1.
\<close>

theorem validateEvents_rejects_iff_witness:
  "[ev_created, ev_renamed] \<noteq> []
   \<and> \<not> spec_rejects ''u1'' 0 [ev_created, ev_renamed]
   \<and> validateEvents ''u1'' 0 [ev_created, ev_renamed] = Ok ()
   \<and> spec_rejects ''u1'' 1 [ev_created, ev_renamed]
   \<and> is_error (validateEvents ''u1'' 1 [ev_created, ev_renamed])"
  using validateEvents_rejects_iff [of "[ev_created, ev_renamed]" "''u1''" 0]
    validateEvents_rejects_iff [of "[ev_created, ev_renamed]" "''u1''" 1]
  by (simp add: spec_rejects_def offending_def baseline_at_def ev_created_def ev_renamed_def)

text \<open>The validator returns one of its four errors.\<close>

lemma validateEvents_loop_errors:
  "validateEvents_loop aid ty cv es = Err err \<Longrightarrow>
     err \<in> {EventsMultipleAggregates, EventsMultipleAggregateTypes, ConcurrencyError, EventHoldsNoReason}"
  by (induction es arbitrary: cv) (auto split: if_splits)

section \<open>The engine's operations\<close>

lemma NextSequence_Some:
  "tx name = Some b \<Longrightarrow>
     NextSequence tx name = Ok (sequence b + 1, tx(name \<mapsto> b\<lparr>sequence := sequence b + 1\<rparr>))"
  by (simp add: NextSequence_def)

lemma Put_Ok:
  "Put tx name k v = Ok tx' \<Longrightarrow> tx name = Some b \<Longrightarrow>
     tx' = tx(name \<mapsto> b\<lparr>entries := put_entry k v (entries b)\<rparr>)"
  by (auto simp: Put_def split: if_splits)

lemma createBucket_absent:
  "tx name = None \<Longrightarrow> name \<noteq> [] \<Longrightarrow>
     createBucket name tx = Ok (tx(name \<mapsto> \<lparr>sequence = 0, entries = []\<rparr>))"
  by (simp add: createBucket_def CreateBucketIfNotExists_def)

lemma aggregateKey_not_empty: "aggregateKey ty aid \<noteq> []" "bucketName ty aid \<noteq> []"
  by (simp_all add: aggregateKey_def bucketName_def)

section \<open>The write loops\<close>

lemma Save_loop_step:
  assumes "Save_loop s name (e # es) tx = Ok tx'"
    and "name \<noteq> globalEventOrderBucketName"
    and "tx name = Some b" and "tx globalEventOrderBucketName = Some gb"
  shows "\<exists>v. SerializeEvent s e = Ok v
       \<and> Save_loop s name es
           (tx(name \<mapsto> b\<lparr>sequence := sequence b + 1,
                          entries := put_entry (itob (sequence b + 1)) v (entries b)\<rparr>,
               globalEventOrderBucketName \<mapsto> gb\<lparr>sequence := sequence gb + 1,
                          entries := put_entry (itob (sequence gb + 1)) v (entries gb)\<rparr>)) = Ok tx'"
proof -
  define tx1 where "tx1 = tx(name \<mapsto> b\<lparr>sequence := sequence b + 1\<rparr>)"
  have n1: "NextSequence tx name = Ok (sequence b + 1, tx1)"
    using assms(3) by (simp add: NextSequence_def tx1_def)
  obtain v where v: "SerializeEvent s e = Ok v"
    using assms(1) by (cases "SerializeEvent s e") (simp_all add: n1)
  obtain tx2 where p1: "Put tx1 name (itob (sequence b + 1)) v = Ok tx2"
    using assms(1) by (cases "Put tx1 name (itob (sequence b + 1)) v") (simp_all add: n1 v)
  have tx2: "tx2 = tx(name \<mapsto> b\<lparr>sequence := sequence b + 1,
      entries := put_entry (itob (sequence b + 1)) v (entries b)\<rparr>)"
    using p1 by (auto simp: Put_def tx1_def split: if_splits)
  have g2: "tx2 globalEventOrderBucketName = Some gb"
    using assms(2,4) by (simp add: tx2)
  define tx3 where "tx3 = tx2(globalEventOrderBucketName \<mapsto> gb\<lparr>sequence := sequence gb + 1\<rparr>)"
  have n2: "NextSequence tx2 globalEventOrderBucketName = Ok (sequence gb + 1, tx3)"
    using g2 by (simp add: NextSequence_def tx3_def)
  obtain tx4 where
    p2: "Put tx3 globalEventOrderBucketName (itob (sequence gb + 1)) v = Ok tx4"
    using assms(1)
    by (cases "Put tx3 globalEventOrderBucketName (itob (sequence gb + 1)) v")
       (simp_all add: n1 v p1 n2)
  have rest: "Save_loop s name es tx4 = Ok tx'"
    using assms(1) by (simp add: n1 v p1 n2 p2)
  have tx4: "tx4 = tx2(globalEventOrderBucketName \<mapsto> gb\<lparr>sequence := sequence gb + 1,
      entries := put_entry (itob (sequence gb + 1)) v (entries gb)\<rparr>)"
    using p2 by (auto simp: Put_def tx3_def split: if_splits)
  from v rest show ?thesis unfolding tx4 tx2 by blast
qed

lemma Save_loop_effect:
  assumes "Save_loop s name events tx = Ok tx'"
    and "name \<noteq> globalEventOrderBucketName"
    and "tx name = Some b" and "tx globalEventOrderBucketName = Some gb"
  shows "\<exists>vals. map (SerializeEvent s) events = map Ok vals
       \<and> tx' = tx(name \<mapsto> b\<lparr>sequence := sequence b + of_nat (length events),
                            entries := put_run (sequence b) vals (entries b)\<rparr>,
                   globalEventOrderBucketName \<mapsto> gb\<lparr>sequence := sequence gb + of_nat (length events),
                            entries := put_run (sequence gb) vals (entries gb)\<rparr>)"
  using assms
proof (induction events arbitrary: tx b gb)
  case Nil
  show ?case
    by (rule exI [of _ "[]"]) (use Nil.prems in \<open>auto simp: fun_eq_iff\<close>)
next
  case (Cons e es)
  from Save_loop_step [OF Cons.prems] obtain v where
    v: "SerializeEvent s e = Ok v"
    and rest: "Save_loop s name es
       (tx(name \<mapsto> b\<lparr>sequence := sequence b + 1,
                      entries := put_entry (itob (sequence b + 1)) v (entries b)\<rparr>,
           globalEventOrderBucketName \<mapsto> gb\<lparr>sequence := sequence gb + 1,
                      entries := put_entry (itob (sequence gb + 1)) v (entries gb)\<rparr>)) = Ok tx'"
    by blast
  let ?b1 = "b\<lparr>sequence := sequence b + 1,
                entries := put_entry (itob (sequence b + 1)) v (entries b)\<rparr>"
  let ?g1 = "gb\<lparr>sequence := sequence gb + 1,
                entries := put_entry (itob (sequence gb + 1)) v (entries gb)\<rparr>"
  let ?tx1 = "tx(name \<mapsto> ?b1, globalEventOrderBucketName \<mapsto> ?g1)"
  have b1: "?tx1 name = Some ?b1" and g1: "?tx1 globalEventOrderBucketName = Some ?g1"
    using Cons.prems(2) by simp_all
  from Cons.IH [of ?tx1 ?b1 ?g1, OF rest Cons.prems(2) b1 g1] obtain vals where
    vals: "map (SerializeEvent s) es = map Ok vals"
    and tx': "tx' = ?tx1(name \<mapsto> ?b1\<lparr>sequence := sequence ?b1 + of_nat (length es),
                            entries := put_run (sequence ?b1) vals (entries ?b1)\<rparr>,
                   globalEventOrderBucketName \<mapsto> ?g1\<lparr>sequence := sequence ?g1 + of_nat (length es),
                            entries := put_run (sequence ?g1) vals (entries ?g1)\<rparr>)"
    by blast
  have "map (SerializeEvent s) (e # es) = map Ok (v # vals)"
    using v vals by simp
  moreover have "tx' = tx(name \<mapsto> b\<lparr>sequence := sequence b + of_nat (length (e # es)),
                            entries := put_run (sequence b) (v # vals) (entries b)\<rparr>,
                   globalEventOrderBucketName \<mapsto> gb\<lparr>sequence := sequence gb + of_nat (length (e # es)),
                            entries := put_run (sequence gb) (v # vals) (entries gb)\<rparr>)"
    using Cons.prems(2) by (simp add: tx' fun_upd_twist add.assoc)
  ultimately show ?case by blast
qed


lemma Save_Ok_shape:
  assumes ok: "Save s db (first # rest) = (Ok (), db')"
    and name: "name = aggregateKey (AggregateType first) (AggregateRootID first)"
    and ng: "name \<noteq> globalEventOrderBucketName"
  shows "\<exists>vals gb cv.
      opened db
    \<and> buckets db globalEventOrderBucketName = Some gb
    \<and> lastVersion s (entries_of (buckets db) name) = Ok cv
    \<and> validateEvents (AggregateRootID first) cv (first # rest) = Ok ()
    \<and> map (SerializeEvent s) (first # rest) = map Ok vals
    \<and> db' = db\<lparr>buckets := (buckets db)
         (name \<mapsto> \<lparr>sequence = sequence_of (buckets db) name + of_nat (length (first # rest)),
                     entries = put_run (sequence_of (buckets db) name) vals
                                 (entries_of (buckets db) name)\<rparr>,
          globalEventOrderBucketName \<mapsto>
             gb\<lparr>sequence := sequence gb + of_nat (length (first # rest)),
                entries := put_run (sequence gb) vals (entries gb)\<rparr>)\<rparr>"
  unfolding name
proof -
  let ?name = "aggregateKey (AggregateType first) (AggregateRootID first)"
  let ?events = "first # rest"
  note ng' = ng [unfolded name]
  define tx0 where "tx0 = (case buckets db ?name of
      None \<Rightarrow> (buckets db)(?name \<mapsto> \<lparr>sequence = 0, entries = []\<rparr>)
    | Some b \<Rightarrow> buckets db)"
  define b where "b = \<lparr>sequence = sequence_of (buckets db) ?name,
                        entries = entries_of (buckets db) ?name\<rparr>"
  have op: "opened db"
    using ok by (auto simp: Save_def Begin_def split: if_splits)
  then have beg: "Begin db = Ok (buckets db)"
    by (simp add: Begin_def)
  have cr: "(if buckets db ?name = None then createBucket ?name (buckets db) else Ok (buckets db))
      = Ok tx0"
    by (auto simp: tx0_def createBucket_absent aggregateKey_not_empty)
  have b0: "tx0 ?name = Some b"
    by (auto simp: tx0_def b_def sequence_of_def entries_of_def split: option.splits)
  obtain cv where cv: "lastVersion s (entries b) = Ok cv"
    using ok unfolding Save_def
    by (cases "lastVersion s (entries b)") (simp_all add: Let_def beg cr b0)
  have val: "validateEvents (AggregateRootID first) cv ?events = Ok ()"
    using ok unfolding Save_def
    by (cases "validateEvents (AggregateRootID first) cv ?events")
       (simp_all add: Let_def beg cr b0 cv)
  obtain gb where g0: "tx0 globalEventOrderBucketName = Some gb"
    using ok unfolding Save_def
    by (cases "tx0 globalEventOrderBucketName") (simp_all add: Let_def beg cr b0 cv val)
  obtain tx1 where loop: "Save_loop s ?name ?events tx0 = Ok tx1"
    using ok unfolding Save_def
    by (cases "Save_loop s ?name ?events tx0")
       (simp_all add: Let_def beg cr b0 cv val g0 del: Save_loop.simps)
  have db': "db' = db\<lparr>buckets := tx1\<rparr>"
    using ok unfolding Save_def
    by (simp add: Let_def beg cr b0 cv val g0 loop Commit_def del: Save_loop.simps)
  have g: "buckets db globalEventOrderBucketName = Some gb"
    using g0 ng' by (auto simp: tx0_def split: option.splits)
  from Save_loop_effect [OF loop ng' b0 g0] obtain vals where
    vals: "map (SerializeEvent s) ?events = map Ok vals"
    and tx1: "tx1 = tx0(?name \<mapsto> b\<lparr>sequence := sequence b + of_nat (length ?events),
                            entries := put_run (sequence b) vals (entries b)\<rparr>,
                   globalEventOrderBucketName \<mapsto> gb\<lparr>sequence := sequence gb + of_nat (length ?events),
                            entries := put_run (sequence gb) vals (entries gb)\<rparr>)"
    by blast
  have "tx1 = (buckets db)
         (?name \<mapsto> \<lparr>sequence = sequence_of (buckets db) ?name + of_nat (length ?events),
                     entries = put_run (sequence_of (buckets db) ?name) vals
                                 (entries_of (buckets db) ?name)\<rparr>,
          globalEventOrderBucketName \<mapsto>
             gb\<lparr>sequence := sequence gb + of_nat (length ?events),
                entries := put_run (sequence gb) vals (entries gb)\<rparr>)"
    unfolding tx1 by (auto simp: tx0_def b_def split: option.splits)
  with op g cv val vals db' show "\<exists>vals gb cv.
      opened db
    \<and> buckets db globalEventOrderBucketName = Some gb
    \<and> lastVersion s (entries_of (buckets db) ?name) = Ok cv
    \<and> validateEvents (AggregateRootID first) cv ?events = Ok ()
    \<and> map (SerializeEvent s) ?events = map Ok vals
    \<and> db' = db\<lparr>buckets := (buckets db)
         (?name \<mapsto> \<lparr>sequence = sequence_of (buckets db) ?name + of_nat (length ?events),
                     entries = put_run (sequence_of (buckets db) ?name) vals
                                 (entries_of (buckets db) ?name)\<rparr>,
          globalEventOrderBucketName \<mapsto>
             gb\<lparr>sequence := sequence gb + of_nat (length ?events),
                entries := put_run (sequence gb) vals (entries gb)\<rparr>)\<rparr>"
    by (auto simp: b_def)
qed

section \<open>Runs of puts\<close>

lemma map_of_put_entry: "map_of (put_entry k v es) = (map_of es)(k \<mapsto> v)"
  by (induction es) (auto simp: fun_eq_iff)

lemma keys_put_entry: "fst ` set (put_entry k v es) = insert k (fst ` set es)"
  by (induction k v es rule: put_entry.induct) (simp_all add: insert_commute)

lemma run_key_Suc: "s + 1 + of_nat (Suc i) = (s + 1) + 1 + (of_nat i :: 64 word)"
  by simp

lemma keys_put_run:
  "fst ` set (put_run s vs es)
     = fst ` set es \<union> (\<lambda>i. itob (s + 1 + of_nat i)) ` {..<length vs}"
proof (induction vs arbitrary: s es)
  case Nil
  then show ?case by simp
next
  case (Cons v vs)
  have "(\<lambda>i. itob (s + 1 + of_nat i)) ` {..<Suc (length vs)}
      = insert (itob (s + 1)) ((\<lambda>i. itob ((s + 1) + 1 + of_nat i)) ` {..<length vs})"
    unfolding lessThan_Suc_eq_insert_0 image_insert image_image run_key_Suc by simp
  then show ?case
    by (simp add: Cons.IH keys_put_entry)
qed

lemma map_of_put_run_other:
  "k \<notin> (\<lambda>i. itob (s + 1 + of_nat i)) ` {..<length vs}
     \<Longrightarrow> map_of (put_run s vs es) k = map_of es k"
proof (induction vs arbitrary: s es)
  case Nil
  then show ?case by simp
next
  case (Cons v vs)
  have img: "(\<lambda>i. itob (s + 1 + of_nat i)) ` {..<Suc (length vs)}
      = insert (itob (s + 1)) ((\<lambda>i. itob ((s + 1) + 1 + of_nat i)) ` {..<length vs})"
    unfolding lessThan_Suc_eq_insert_0 image_insert image_image run_key_Suc by simp
  from Cons.prems have k1: "k \<noteq> itob (s + 1)"
    and k2: "k \<notin> (\<lambda>i. itob ((s + 1) + 1 + of_nat i)) ` {..<length vs}"
    unfolding length_Cons img by simp_all
  show ?case
    using Cons.IH [OF k2] k1 by (simp add: map_of_put_entry)
qed

lemma unat_run_key:
  assumes "unat (s :: 64 word) + 1 + i < 2 ^ 64"
  shows "unat (s + 1 + of_nat i) = unat s + 1 + i"
proof -
  have "s + 1 + of_nat i = (of_nat (unat s + 1 + i) :: 64 word)"
    by simp
  then have "unat (s + 1 + of_nat i) = (unat s + 1 + i) mod 2 ^ 64"
    by (simp only: unat_of_nat) simp
  with assms show ?thesis by simp
qed

lemma run_keys_ascending:
  assumes "unat (s :: 64 word) + n < 2 ^ 64" and "i < j" and "j < n"
  shows "bytes_less (itob (s + 1 + of_nat i)) (itob (s + 1 + of_nat j))"
proof -
  have "unat (s + 1 + of_nat i) = unat s + 1 + i" "unat (s + 1 + of_nat j) = unat s + 1 + j"
    using assms by (simp_all add: unat_run_key)
  with assms(2) show ?thesis
    by (simp add: bytes_less_itob word_less_nat_alt)
qed

lemma run_keys_distinct:
  assumes "n \<le> 2 ^ 64" and "i < n" and "j < n" and "i \<noteq> j"
  shows "itob (s + 1 + of_nat i) \<noteq> itob (s + 1 + of_nat j)"
proof -
  have "(of_nat i :: 64 word) \<noteq> of_nat j"
    using assms by (simp add: word_of_nat_eq_iff take_bit_eq_mod)
  then show ?thesis by (simp add: itob_inj)
qed

lemma map_of_put_run_nth:
  assumes "i < length vs" and "length vs \<le> 2 ^ 64"
  shows "map_of (put_run s vs es) (itob (s + 1 + of_nat i)) = Some (vs ! i)"
  using assms
proof (induction vs arbitrary: s es i)
  case Nil
  then show ?case by simp
next
  case (Cons v vs)
  show ?case
  proof (cases i)
    case 0
    have "itob (s + 1) \<notin> (\<lambda>i. itob ((s + 1) + 1 + of_nat i)) ` {..<length vs}"
    proof
      assume "itob (s + 1) \<in> (\<lambda>i. itob ((s + 1) + 1 + of_nat i)) ` {..<length vs}"
      then obtain j where j: "j < length vs"
        and eq: "itob (s + 1) = itob ((s + 1) + 1 + of_nat j)"
        by blast
      have "itob (s + 1 + of_nat 0) = itob (s + 1 + of_nat (Suc j))"
        unfolding run_key_Suc using eq by simp
      moreover have "itob (s + 1 + of_nat 0) \<noteq> itob (s + 1 + of_nat (Suc j))"
        using Cons.prems(2) j by (intro run_keys_distinct [of "length (v # vs)"]) simp_all
      ultimately show False by blast
    qed
    from map_of_put_run_other [OF this] 0 show ?thesis
      by (simp add: map_of_put_entry)
  next
    case (Suc j)
    with Cons.prems have "j < length vs" "length vs \<le> 2 ^ 64" by simp_all
    from Cons.IH [OF this, of "s + 1" "put_entry (itob (s + 1)) v es"]
    have "map_of (put_run s (v # vs) es) (itob ((s + 1) + 1 + of_nat j)) = Some ((v # vs) ! Suc j)"
      by simp
    then show ?thesis
      unfolding Suc run_key_Suc .
  qed
qed

section \<open>The write loop of the JSON-based store\<close>

lemma length_pointers: "length (pointers name s n) = n"
  by (induction n arbitrary: s) simp_all

lemma Save_json_loop_step:
  assumes "Save_json_loop c name (e # es) tx = Ok tx'"
    and "name \<noteq> globalEventOrderBucketName"
    and "tx name = Some b" and "tx globalEventOrderBucketName = Some gb"
  shows "\<exists>v. Save_json_loop c name es
           (tx(name \<mapsto> b\<lparr>sequence := sequence b + 1,
                          entries := put_entry (itob (sequence b + 1)) v (entries b)\<rparr>,
               globalEventOrderBucketName \<mapsto> gb\<lparr>sequence := sequence gb + 1,
                          entries := put_entry (itob (sequence gb + 1))
                            (string_bytes (name @ '':'' @ FormatUint (unat (sequence b + 1))))
                            (entries gb)\<rparr>)) = Ok tx'"
proof -
  define ptr where "ptr = string_bytes (name @ CHR '':'' # FormatUint (unat (sequence b + 1)))"
  obtain obj where obj: "json_Marshal c e = Ok obj"
    using assms(1) by (cases "json_Marshal c e") simp_all
  define tx1 where "tx1 = tx(name \<mapsto> b\<lparr>sequence := sequence b + 1\<rparr>)"
  have n1: "NextSequence tx name = Ok (sequence b + 1, tx1)"
    using assms(3) by (simp add: NextSequence_def tx1_def)
  obtain v where v: "MustCompress c obj = Ok v"
    using assms(1) by (cases "MustCompress c obj") (simp_all add: obj n1)
  obtain tx2 where p1: "Put tx1 name (itob (sequence b + 1)) v = Ok tx2"
    using assms(1) by (cases "Put tx1 name (itob (sequence b + 1)) v") (simp_all add: obj n1 v)
  have tx2: "tx2 = tx(name \<mapsto> b\<lparr>sequence := sequence b + 1,
      entries := put_entry (itob (sequence b + 1)) v (entries b)\<rparr>)"
    using p1 by (auto simp: Put_def tx1_def split: if_splits)
  have g2: "tx2 globalEventOrderBucketName = Some gb"
    using assms(2,4) by (simp add: tx2)
  define tx3 where "tx3 = tx2(globalEventOrderBucketName \<mapsto> gb\<lparr>sequence := sequence gb + 1\<rparr>)"
  have n2: "NextSequence tx2 globalEventOrderBucketName = Ok (sequence gb + 1, tx3)"
    using g2 by (simp add: NextSequence_def tx3_def)
  obtain tx4 where
    p2: "Put tx3 globalEventOrderBucketName (itob (sequence gb + 1)) ptr = Ok tx4"
    using assms(1)
    by (cases "Put tx3 globalEventOrderBucketName (itob (sequence gb + 1)) ptr")
       (simp_all add: obj n1 v p1 n2 Let_def flip: ptr_def)
  have rest: "Save_json_loop c name es tx4 = Ok tx'"
    using assms(1) by (simp add: obj n1 v p1 n2 p2 Let_def flip: ptr_def)
  have tx4: "tx4 = tx2(globalEventOrderBucketName \<mapsto> gb\<lparr>sequence := sequence gb + 1,
      entries := put_entry (itob (sequence gb + 1)) ptr (entries gb)\<rparr>)"
    using p2 by (auto simp: Put_def tx3_def split: if_splits)
  from rest show ?thesis unfolding tx4 tx2 ptr_def by auto
qed

lemma Save_json_loop_effect:
  assumes "Save_json_loop c name events tx = Ok tx'"
    and "name \<noteq> globalEventOrderBucketName"
    and "tx name = Some b" and "tx globalEventOrderBucketName = Some gb"
  shows "\<exists>vals. length vals = length events
       \<and> tx' = tx(name \<mapsto> b\<lparr>sequence := sequence b + of_nat (length events),
                            entries := put_run (sequence b) vals (entries b)\<rparr>,
                   globalEventOrderBucketName \<mapsto> gb\<lparr>sequence := sequence gb + of_nat (length events),
                            entries := put_run (sequence gb)
                               (pointers name (sequence b) (length events)) (entries gb)\<rparr>)"
  using assms
proof (induction events arbitrary: tx b gb)
  case Nil
  show ?case
    by (rule exI [of _ "[]"]) (use Nil.prems in \<open>auto simp: fun_eq_iff\<close>)
next
  case (Cons e es)
  let ?ptr = "string_bytes (name @ '':'' @ FormatUint (unat (sequence b + 1)))"
  from Save_json_loop_step [OF Cons.prems] obtain v where
    rest: "Save_json_loop c name es
       (tx(name \<mapsto> b\<lparr>sequence := sequence b + 1,
                      entries := put_entry (itob (sequence b + 1)) v (entries b)\<rparr>,
           globalEventOrderBucketName \<mapsto> gb\<lparr>sequence := sequence gb + 1,
                      entries := put_entry (itob (sequence gb + 1)) ?ptr (entries gb)\<rparr>)) = Ok tx'"
    by blast
  let ?b1 = "b\<lparr>sequence := sequence b + 1,
                entries := put_entry (itob (sequence b + 1)) v (entries b)\<rparr>"
  let ?g1 = "gb\<lparr>sequence := sequence gb + 1,
                entries := put_entry (itob (sequence gb + 1)) ?ptr (entries gb)\<rparr>"
  let ?tx1 = "tx(name \<mapsto> ?b1, globalEventOrderBucketName \<mapsto> ?g1)"
  have b1: "?tx1 name = Some ?b1" and g1: "?tx1 globalEventOrderBucketName = Some ?g1"
    using Cons.prems(2) by simp_all
  from Cons.IH [of ?tx1 ?b1 ?g1, OF rest Cons.prems(2) b1 g1] obtain vals where
    vals: "length vals = length es"
    and tx': "tx' = ?tx1(name \<mapsto> ?b1\<lparr>sequence := sequence ?b1 + of_nat (length es),
                            entries := put_run (sequence ?b1) vals (entries ?b1)\<rparr>,
                   globalEventOrderBucketName \<mapsto> ?g1\<lparr>sequence := sequence ?g1 + of_nat (length es),
                            entries := put_run (sequence ?g1)
                               (pointers name (sequence ?b1) (length es)) (entries ?g1)\<rparr>)"
    by blast
  have "length (v # vals) = length (e # es)"
    using vals by simp
  moreover have "tx' = tx(name \<mapsto> b\<lparr>sequence := sequence b + of_nat (length (e # es)),
                            entries := put_run (sequence b) (v # vals) (entries b)\<rparr>,
                   globalEventOrderBucketName \<mapsto> gb\<lparr>sequence := sequence gb + of_nat (length (e # es)),
                            entries := put_run (sequence gb)
                               (pointers name (sequence b) (length (e # es))) (entries gb)\<rparr>)"
    using Cons.prems(2) by (simp add: tx' fun_upd_twist add.assoc)
  ultimately show ?case by blast
qed

lemma Save_json_Ok_shape:
  assumes ok: "Save_json c db (first # rest) = (Ok (), db')"
    and name: "name = bucketName (AggregateType first) (AggregateRootID first)"
    and ng: "name \<noteq> globalEventOrderBucketName"
  shows "\<exists>vals gb cv.
      opened db
    \<and> buckets db globalEventOrderBucketName = Some gb
    \<and> lastVersion_json c (entries_of (buckets db) name) = Ok cv
    \<and> validateEvents (AggregateRootID first) cv (first # rest) = Ok ()
    \<and> length vals = length (first # rest)
    \<and> db' = db\<lparr>buckets := (buckets db)
         (name \<mapsto> \<lparr>sequence = sequence_of (buckets db) name + of_nat (length (first # rest)),
                     entries = put_run (sequence_of (buckets db) name) vals
                                 (entries_of (buckets db) name)\<rparr>,
          globalEventOrderBucketName \<mapsto>
             gb\<lparr>sequence := sequence gb + of_nat (length (first # rest)),
                entries := put_run (sequence gb)
                  (pointers name (sequence_of (buckets db) name) (length (first # rest)))
                  (entries gb)\<rparr>)\<rparr>"
  unfolding name
proof -
  let ?name = "bucketName (AggregateType first) (AggregateRootID first)"
  let ?events = "first # rest"
  note ng' = ng [unfolded name]
  define tx0 where "tx0 = (case buckets db ?name of
      None \<Rightarrow> (buckets db)(?name \<mapsto> \<lparr>sequence = 0, entries = []\<rparr>)
    | Some b \<Rightarrow> buckets db)"
  define b where "b = \<lparr>sequence = sequence_of (buckets db) ?name,
                        entries = entries_of (buckets db) ?name\<rparr>"
  have op: "opened db"
    using ok by (auto simp: Save_json_def Begin_def split: if_splits)
  then have beg: "Begin db = Ok (buckets db)"
    by (simp add: Begin_def)
  have cr: "(if buckets db ?name = None then createBucket ?name (buckets db) else Ok (buckets db))
      = Ok tx0"
    by (auto simp: tx0_def createBucket_absent aggregateKey_not_empty)
  have b0: "tx0 ?name = Some b"
    by (auto simp: tx0_def b_def sequence_of_def entries_of_def split: option.splits)
  obtain cv where cv: "lastVersion_json c (entries b) = Ok cv"
    using ok unfolding Save_json_def
    by (cases "lastVersion_json c (entries b)") (simp_all add: Let_def beg cr b0)
  have val: "validateEvents (AggregateRootID first) cv ?events = Ok ()"
    using ok unfolding Save_json_def
    by (cases "validateEvents (AggregateRootID first) cv ?events")
       (simp_all add: Let_def beg cr b0 cv)
  obtain gb where g0: "tx0 globalEventOrderBucketName = Some gb"
    using ok unfolding Save_json_def
    by (cases "tx0 globalEventOrderBucketName") (simp_all add: Let_def beg cr b0 cv val)
  obtain tx1 where loop: "Save_json_loop c ?name ?events tx0 = Ok tx1"
    using ok unfolding Save_json_def
    by (cases "Save_json_loop c ?name ?events tx0")
       (simp_all add: Let_def beg cr b0 cv val g0 del: Save_json_loop.simps)
  have db': "db' = db\<lparr>buckets := tx1\<rparr>"
    using ok unfolding Save_json_def
    by (simp add: Let_def beg cr b0 cv val g0 loop Commit_def del: Save_json_loop.simps)
  have g: "buckets db globalEventOrderBucketName = Some gb"
    using g0 ng' by (auto simp: tx0_def split: option.splits)
  from Save_json_loop_effect [OF loop ng' b0 g0] obtain vals where
    vals: "length vals = length ?events"
    and tx1: "tx1 = tx0(?name \<mapsto> b\<lparr>sequence := sequence b + of_nat (length ?events),
                            entries := put_run (sequence b) vals (entries b)\<rparr>,
                   globalEventOrderBucketName \<mapsto> gb\<lparr>sequence := sequence gb + of_nat (length ?events),
                            entries := put_run (sequence gb)
                              (pointers ?name (sequence b) (length ?events)) (entries gb)\<rparr>)"
    by blast
  have "tx1 = (buckets db)
         (?name \<mapsto> \<lparr>sequence = sequence_of (buckets db) ?name + of_nat (length ?events),
                     entries = put_run (sequence_of (buckets db) ?name) vals
                                 (entries_of (buckets db) ?name)\<rparr>,
          globalEventOrderBucketName \<mapsto>
             gb\<lparr>sequence := sequence gb + of_nat (length ?events),
                entries := put_run (sequence gb)
                  (pointers ?name (sequence_of (buckets db) ?name) (length ?events))
                  (entries gb)\<rparr>)"
    unfolding tx1 by (auto simp: tx0_def b_def split: option.splits)
  with op g cv val vals db' show "\<exists>vals gb cv.
      opened db
    \<and> buckets db globalEventOrderBucketName = Some gb
    \<and> lastVersion_json c (entries_of (buckets db) ?name) = Ok cv
    \<and> validateEvents (AggregateRootID first) cv ?events = Ok ()
    \<and> length vals = length ?events
    \<and> db' = db\<lparr>buckets := (buckets db)
         (?name \<mapsto> \<lparr>sequence = sequence_of (buckets db) ?name + of_nat (length ?events),
                     entries = put_run (sequence_of (buckets db) ?name) vals
                                 (entries_of (buckets db) ?name)\<rparr>,
          globalEventOrderBucketName \<mapsto>
             gb\<lparr>sequence := sequence gb + of_nat (length ?events),
                entries := put_run (sequence gb)
                  (pointers ?name (sequence_of (buckets db) ?name) (length ?events))
                  (entries gb)\<rparr>)\<rparr>"
    by (auto simp: b_def)
qed

section \<open>Rejected batches\<close>

lemma bucketName_aggregateKey: "bucketName ty aid = aggregateKey ty aid"
  by (simp add: bucketName_def aggregateKey_def)

text \<open>
  Claim C3: a batch that fails validation is rejected with the validator's error and
  leaves the store as it was. With the store open and \<open>currentVersion\<close> the version
  read from the last stored event of the aggregate's keyspace (0 when there is none), if
  the validator rejects the batch with \<open>err\<close>, then \<open>Save\<close> returns \<open>err\<close> and the
  database it was given: no event of the batch is in the aggregate keyspace or the global
  log, and no sequence counter has advanced. This holds for both stores.
\<close>

theorem Save_rejected_batch_leaves_store:
  assumes ev: "events = first # rest" and op: "opened db"
    and name: "name = aggregateKey (AggregateType first) (AggregateRootID first)"
  shows "(lastVersion s (entries_of (buckets db) name) = Ok currentVersion
          \<and> validateEvents (AggregateRootID first) currentVersion events = Err err
          \<longrightarrow> Save s db events = (Err err, db))
       \<and> (lastVersion_json c (entries_of (buckets db) name) = Ok currentVersion
          \<and> validateEvents (AggregateRootID first) currentVersion events = Err err
          \<longrightarrow> Save_json c db events = (Err err, db))"
proof (cases "buckets db name")
  case None
  then have e: "entries_of (buckets db) name = []"
    by (simp add: entries_of_def)
  have cr: "createBucket name (buckets db) = Ok ((buckets db)(name \<mapsto> \<lparr>sequence = 0, entries = []\<rparr>))"
    using None by (simp add: createBucket_absent name aggregateKey_not_empty)
  show ?thesis
    using None op cr unfolding e ev
    by (simp add: Save_def Save_json_def Begin_def Let_def bucketName_aggregateKey
        del: Save_loop.simps Save_json_loop.simps flip: name)
next
  case (Some b)
  then have e: "entries_of (buckets db) name = entries b"
    by (simp add: entries_of_def)
  show ?thesis
    using Some op unfolding e ev
    by (simp add: Save_def Save_json_def Begin_def Let_def bucketName_aggregateKey
        del: Save_loop.simps Save_json_loop.simps flip: name)
qed

text \<open>The definitions that evaluate a run of the store on the sample data.\<close>

lemmas run_defs = Save_def Save_json_def Begin_def Commit_def MustOpenBBolt_def aggregateKey_def
  bucketName_def globalEventOrderBucketName_def createBucket_def CreateBucketIfNotExists_def
  lastVersion_def lastVersion_json_def cursor_Last_def validateEvents_def NextSequence_def Put_def
  table_serializer_def table_codec_def Get_def GlobalGet_def Let_def length_itob itob_inj
  bytes_less_itob ev_created_def ev_renamed_def ev_order_def entries_of_def sequence_of_def

text \<open>
  On a newly opened store, a batch that starts at version 2 is rejected with the
  concurrency error, and the store is unchanged.
\<close>

theorem Save_rejected_batch_leaves_store_witness:
  "Save table_serializer MustOpenBBolt [ev_renamed] = (Err ConcurrencyError, MustOpenBBolt)
   \<and> Save_json table_codec MustOpenBBolt [ev_renamed] = (Err ConcurrencyError, MustOpenBBolt)"
proof -
  have op: "opened MustOpenBBolt"
    by (simp add: MustOpenBBolt_def)
  have lv: "lastVersion table_serializer (entries_of (buckets MustOpenBBolt)
      (aggregateKey (AggregateType ev_renamed) (AggregateRootID ev_renamed))) = Ok 0"
    "lastVersion_json table_codec (entries_of (buckets MustOpenBBolt)
      (aggregateKey (AggregateType ev_renamed) (AggregateRootID ev_renamed))) = Ok 0"
    by (simp_all add: run_defs)
  have bad: "validateEvents (AggregateRootID ev_renamed) 0 [ev_renamed] = Err ConcurrencyError"
    by (simp add: run_defs)
  from Save_rejected_batch_leaves_store [where events = "[ev_renamed]" and first = ev_renamed
      and rest = "[]" and db = MustOpenBBolt and s = table_serializer and c = table_codec
      and name = "aggregateKey (AggregateType ev_renamed) (AggregateRootID ev_renamed)"
      and currentVersion = 0 and err = ConcurrencyError, OF refl op refl] lv bad
  show ?thesis by simp
qed

text \<open>Whatever makes a call fail, the database is the one the call started with.\<close>

lemma Save_result_shape:
  "\<exists>r db'. Save s db events = (r, db') \<and> (r \<noteq> Ok () \<longrightarrow> db' = db)"
  unfolding Save_def Let_def Commit_def
  by (simp del: Save_loop.simps split: list.split result.split option.split)

lemma Save_failure_rolls_back:
  "fst (Save s db events) \<noteq> Ok () \<Longrightarrow> snd (Save s db events) = db"
  using Save_result_shape [of s db events] by auto

lemma Save_json_result_shape:
  "\<exists>r db'. Save_json c db events = (r, db') \<and> (r \<noteq> Ok () \<longrightarrow> db' = db)"
  unfolding Save_json_def Let_def Commit_def
  by (simp del: Save_json_loop.simps split: list.split result.split option.split)

lemma Save_json_failure_rolls_back:
  "fst (Save_json c db events) \<noteq> Ok () \<Longrightarrow> snd (Save_json c db events) = db"
  using Save_json_result_shape [of c db events] by auto

section \<open>Sequence counters and the global run\<close>

lemma unat_plus_of_nat:
  assumes "unat (s :: 64 word) + n < 2 ^ 64"
  shows "unat (s + of_nat n) = unat s + n"
proof -
  have "s + of_nat n = (of_nat (unat s + n) :: 64 word)"
    by simp
  then have "unat (s + of_nat n) = (unat s + n) mod 2 ^ 64"
    by (simp only: unat_of_nat) simp
  with assms show ?thesis by simp
qed

text \<open>
  What a successful call of either store leaves in the two keyspaces: a run of puts in
  each, and both counters moved by the length of the batch.
\<close>

lemma Save_either_shape:
  assumes saved: "Save s db (first # rest) = (Ok (), db') \<or> Save_json c db (first # rest) = (Ok (), db')"
    and name: "name = aggregateKey (AggregateType first) (AggregateRootID first)"
    and ng: "name \<noteq> globalEventOrderBucketName"
  shows "\<exists>vals gvals gb.
      buckets db globalEventOrderBucketName = Some gb
    \<and> length vals = length (first # rest) \<and> length gvals = length (first # rest)
    \<and> buckets db' = (buckets db)
         (name \<mapsto> \<lparr>sequence = sequence_of (buckets db) name + of_nat (length (first # rest)),
                     entries = put_run (sequence_of (buckets db) name) vals
                                 (entries_of (buckets db) name)\<rparr>,
          globalEventOrderBucketName \<mapsto>
             gb\<lparr>sequence := sequence gb + of_nat (length (first # rest)),
                entries := put_run (sequence gb) gvals (entries gb)\<rparr>)"
  using saved
proof
  assume "Save s db (first # rest) = (Ok (), db')"
  from Save_Ok_shape [OF this name ng] obtain vals gb where
    "buckets db globalEventOrderBucketName = Some gb"
    "map (SerializeEvent s) (first # rest) = map Ok vals"
    "db' = db\<lparr>buckets := (buckets db)
         (name \<mapsto> \<lparr>sequence = sequence_of (buckets db) name + of_nat (length (first # rest)),
                     entries = put_run (sequence_of (buckets db) name) vals
                                 (entries_of (buckets db) name)\<rparr>,
          globalEventOrderBucketName \<mapsto>
             gb\<lparr>sequence := sequence gb + of_nat (length (first # rest)),
                entries := put_run (sequence gb) vals (entries gb)\<rparr>)\<rparr>"
    by blast
  moreover from this(2) have "length vals = length (first # rest)"
    by (metis length_map)
  ultimately show ?thesis
    by (intro exI [of _ vals] exI [of _ gb]) simp
next
  assume "Save_json c db (first # rest) = (Ok (), db')"
  from Save_json_Ok_shape [OF this name [folded bucketName_aggregateKey] ng] obtain vals gb where
    "buckets db globalEventOrderBucketName = Some gb"
    "length vals = length (first # rest)"
    "db' = db\<lparr>buckets := (buckets db)
         (name \<mapsto> \<lparr>sequence = sequence_of (buckets db) name + of_nat (length (first # rest)),
                     entries = put_run (sequence_of (buckets db) name) vals
                                 (entries_of (buckets db) name)\<rparr>,
          globalEventOrderBucketName \<mapsto>
             gb\<lparr>sequence := sequence gb + of_nat (length (first # rest)),
                entries := put_run (sequence gb)
                  (pointers name (sequence_of (buckets db) name) (length (first # rest)))
                  (entries gb)\<rparr>)\<rparr>"
    by blast
  then show ?thesis
    by (intro exI [of _ vals]
        exI [of _ "pointers name (sequence_of (buckets db) name) (length (first # rest))"]
        exI [of _ gb]) (simp add: length_pointers)
qed

text \<open>
  Where the aggregate has a bucket of its own the counters behave as intended. Take a
  successful save, by either store, of a non-empty batch of \<open>n\<close> events whose bucket is
  not the global log, with both counters at least \<open>n\<close> below \<open>2^64\<close>. Then the
  aggregate's counter and the global counter have each advanced by exactly \<open>n\<close>; the keys
  of the global log are the keys it had plus the keys of the \<open>n\<close> sequence numbers that
  follow the old global counter; these keys ascend; and every other key of the global log
  holds what it held before. What the run holds, event by event, is the subject of
  \<open>Save_global_entries\<close> and \<open>Save_json_global_entries\<close> below.
\<close>

theorem Save_counters_and_global_run:
  assumes ev: "events = first # rest"
    and name: "name = aggregateKey (AggregateType first) (AggregateRootID first)"
    and ng: "name \<noteq> globalEventOrderBucketName"
    and saved: "Save s db events = (Ok (), db') \<or> Save_json c db events = (Ok (), db')"
    and l: "l = sequence_of (buckets db) name"
    and g: "g = sequence_of (buckets db) globalEventOrderBucketName"
    and nl: "unat l + length events < 2 ^ 64"
    and ngl: "unat g + length events < 2 ^ 64"
  shows "unat (sequence_of (buckets db') name) = unat l + length events
       \<and> unat (sequence_of (buckets db') globalEventOrderBucketName) = unat g + length events
       \<and> fst ` set (entries_of (buckets db') globalEventOrderBucketName)
           = fst ` set (entries_of (buckets db) globalEventOrderBucketName)
             \<union> (\<lambda>i. itob (g + 1 + of_nat i)) ` {..<length events}
       \<and> (\<forall>i j. i < j \<and> j < length events
             \<longrightarrow> bytes_less (itob (g + 1 + of_nat i)) (itob (g + 1 + of_nat j)))
       \<and> (\<forall>k. k \<notin> (\<lambda>i. itob (g + 1 + of_nat i)) ` {..<length events}
             \<longrightarrow> lookup (entries_of (buckets db') globalEventOrderBucketName) k
                 = lookup (entries_of (buckets db) globalEventOrderBucketName) k)"
proof -
  from Save_either_shape [OF saved [unfolded ev] name ng] obtain vals gvals gb where
    gb: "buckets db globalEventOrderBucketName = Some gb"
    and lv: "length vals = length events" and lg: "length gvals = length events"
    and b': "buckets db' = (buckets db)
         (name \<mapsto> \<lparr>sequence = l + of_nat (length events),
                     entries = put_run l vals (entries_of (buckets db) name)\<rparr>,
          globalEventOrderBucketName \<mapsto>
             gb\<lparr>sequence := sequence gb + of_nat (length events),
                entries := put_run (sequence gb) gvals (entries gb)\<rparr>)"
    unfolding ev l by blast
  have g': "g = sequence gb" and eg: "entries_of (buckets db) globalEventOrderBucketName = entries gb"
    using gb by (simp_all add: g sequence_of_def entries_of_def)
  have s1: "sequence_of (buckets db') name = l + of_nat (length events)"
    using ng by (simp add: b' sequence_of_def)
  have s2: "sequence_of (buckets db') globalEventOrderBucketName = g + of_nat (length events)"
    by (simp add: b' sequence_of_def g')
  have e2: "entries_of (buckets db') globalEventOrderBucketName = put_run g gvals (entries gb)"
    by (simp add: b' entries_of_def g')
  have "unat (sequence_of (buckets db') name) = unat l + length events"
    unfolding s1 by (rule unat_plus_of_nat [OF nl])
  moreover have "unat (sequence_of (buckets db') globalEventOrderBucketName) = unat g + length events"
    unfolding s2 by (rule unat_plus_of_nat [OF ngl])
  moreover have "fst ` set (entries_of (buckets db') globalEventOrderBucketName)
           = fst ` set (entries_of (buckets db) globalEventOrderBucketName)
             \<union> (\<lambda>i. itob (g + 1 + of_nat i)) ` {..<length events}"
    unfolding e2 eg keys_put_run lg ..
  moreover have "\<forall>i j. i < j \<and> j < length events
             \<longrightarrow> bytes_less (itob (g + 1 + of_nat i)) (itob (g + 1 + of_nat j))"
    using run_keys_ascending [OF ngl] by blast
  moreover have "\<forall>k. k \<notin> (\<lambda>i. itob (g + 1 + of_nat i)) ` {..<length events}
             \<longrightarrow> lookup (entries_of (buckets db') globalEventOrderBucketName) k
                 = lookup (entries_of (buckets db) globalEventOrderBucketName) k"
    unfolding e2 eg lookup_def using map_of_put_run_other [of _ g gvals "entries gb"]
    by (simp add: lg)
  ultimately show ?thesis by blast
qed


text \<open>
  The scenario's batch of two events on a newly opened store: both counters go from 0 to
  2 and the global log holds the keys of 1 and 2.
\<close>

theorem Save_counters_and_global_run_witness:
  "aggregateKey (AggregateType ev_created) (AggregateRootID ev_created) \<noteq> globalEventOrderBucketName
   \<and> fst (Save table_serializer MustOpenBBolt [ev_created, ev_renamed]) = Ok ()
   \<and> unat (sequence_of (buckets (snd (Save table_serializer MustOpenBBolt [ev_created, ev_renamed])))
         (aggregateKey (AggregateType ev_created) (AggregateRootID ev_created))) = 2
   \<and> unat (sequence_of (buckets (snd (Save table_serializer MustOpenBBolt [ev_created, ev_renamed])))
         globalEventOrderBucketName) = 2
   \<and> fst ` set (entries_of (buckets (snd (Save table_serializer MustOpenBBolt [ev_created, ev_renamed])))
         globalEventOrderBucketName) = {itob 1, itob 2}
   \<and> bytes_less (itob 1) (itob 2)"
proof -
  let ?db' = "snd (Save table_serializer MustOpenBBolt [ev_created, ev_renamed])"
  let ?name = "aggregateKey (AggregateType ev_created) (AggregateRootID ev_created)"
  have ng: "?name \<noteq> globalEventOrderBucketName"
    by (simp add: run_defs)
  have ok: "fst (Save table_serializer MustOpenBBolt [ev_created, ev_renamed]) = Ok ()"
    by (simp add: run_defs)
  then have saved: "Save table_serializer MustOpenBBolt [ev_created, ev_renamed] = (Ok (), ?db')
      \<or> Save_json table_codec MustOpenBBolt [ev_created, ev_renamed] = (Ok (), ?db')"
    by (simp add: prod_eq_iff)
  have l: "sequence_of (buckets MustOpenBBolt) ?name = 0"
    and g: "sequence_of (buckets MustOpenBBolt) globalEventOrderBucketName = 0"
    and e: "entries_of (buckets MustOpenBBolt) globalEventOrderBucketName = []"
    by (simp_all add: run_defs)
  have img: "(\<lambda>i. itob (0 + 1 + of_nat i)) ` {..<length [ev_created, ev_renamed]} = {itob 1, itob 2}"
    by (simp add: lessThan_Suc insert_commute)
  from Save_counters_and_global_run [OF refl refl ng saved refl refl, unfolded l g e img]
  have "unat (sequence_of (buckets ?db') ?name) = 2
      \<and> unat (sequence_of (buckets ?db') globalEventOrderBucketName) = 2
      \<and> fst ` set (entries_of (buckets ?db') globalEventOrderBucketName) = {itob 1, itob 2}
      \<and> (\<forall>i j. i < j \<and> j < length [ev_created, ev_renamed]
            \<longrightarrow> bytes_less (itob (0 + 1 + of_nat i)) (itob (0 + 1 + of_nat j)))"
    by simp
  moreover from this have "bytes_less (itob (0 + 1 + of_nat 0)) (itob (0 + 1 + of_nat 1))"
    by (metis One_nat_def Suc_1 length_Cons lessI list.size(3) zero_less_one)
  ultimately show ?thesis using ng ok by simp
qed

lemma FormatUint_digit: "n < 10 \<Longrightarrow> FormatUint n = [char_of (48 + n)]"
  by (simp add: FormatUint.simps)

text \<open>
  Claim C8: a successful save of \<open>n\<close> events advances the aggregate's counter and the
  global counter by exactly \<open>n\<close> each, and its \<open>n\<close> global log entries occupy a
  contiguous run with no other entry between them. The code does not keep this for the
  aggregate of type \<open>global_event\<close> with id \<open>order\<close>: without the \<open>events_\<close> prefix of
  the comment its bucket name is \<open>global_event_order\<close>, the global log itself. Saving
  one event for it on a newly opened store succeeds, in both stores, and moves that one
  counter from 0 to 2; in the serializer-based store the global log then holds two
  entries for the one event, the aggregate's own under key 1 and the log's under key 2.
\<close>

theorem Save_counters_global_name_collision:
  "aggregateKey (AggregateType ev_order) (AggregateRootID ev_order) = globalEventOrderBucketName
   \<and> fst (Save table_serializer MustOpenBBolt [ev_order]) = Ok ()
   \<and> fst (Save_json table_codec MustOpenBBolt [ev_order]) = Ok ()
   \<and> length [ev_order] = 1
   \<and> sequence_of (buckets MustOpenBBolt) globalEventOrderBucketName = 0
   \<and> sequence_of (buckets (snd (Save table_serializer MustOpenBBolt [ev_order])))
        globalEventOrderBucketName = 2
   \<and> sequence_of (buckets (snd (Save_json table_codec MustOpenBBolt [ev_order])))
        globalEventOrderBucketName = 2
   \<and> entries_of (buckets (snd (Save table_serializer MustOpenBBolt [ev_order])))
        globalEventOrderBucketName = [(itob 1, [3]), (itob 2, [3])]"
  by (simp add: run_defs FormatUint_digit string_bytes_def)

text \<open>
  In the serializer-based store the entries of the run are the serialized events of the
  batch, in the order of the batch.
\<close>

lemma Save_global_entries:
  assumes ev: "events = first # rest"
    and name: "name = aggregateKey (AggregateType first) (AggregateRootID first)"
    and ng: "name \<noteq> globalEventOrderBucketName"
    and saved: "Save s db events = (Ok (), db')"
    and g: "g = sequence_of (buckets db) globalEventOrderBucketName"
    and len: "length events \<le> 2 ^ 64"
    and i: "i < length events"
  shows "\<exists>v. SerializeEvent s (events ! i) = Ok v
       \<and> lookup (entries_of (buckets db') globalEventOrderBucketName) (itob (g + 1 + of_nat i))
           = Some v"
proof -
  from Save_Ok_shape [OF saved [unfolded ev] name ng] obtain vals gb where
    gb: "buckets db globalEventOrderBucketName = Some gb"
    and vals: "map (SerializeEvent s) events = map Ok vals"
    and db': "db' = db\<lparr>buckets := (buckets db)
         (name \<mapsto> \<lparr>sequence = sequence_of (buckets db) name + of_nat (length events),
                     entries = put_run (sequence_of (buckets db) name) vals
                                 (entries_of (buckets db) name)\<rparr>,
          globalEventOrderBucketName \<mapsto>
             gb\<lparr>sequence := sequence gb + of_nat (length events),
                entries := put_run (sequence gb) vals (entries gb)\<rparr>)\<rparr>"
    unfolding ev by blast
  have lv: "length vals = length events"
    using vals by (metis length_map)
  have g': "g = sequence gb"
    using gb by (simp add: g sequence_of_def)
  have "SerializeEvent s (events ! i) = Ok (vals ! i)"
    using vals i lv by (metis nth_map)
  moreover have "lookup (entries_of (buckets db') globalEventOrderBucketName)
      (itob (g + 1 + of_nat i)) = Some (vals ! i)"
    using map_of_put_run_nth [of i vals g "entries gb"] i lv len
    by (simp add: db' entries_of_def lookup_def g')
  ultimately show ?thesis by blast
qed

text \<open>
  In the JSON-based store the entries of the run are the pointers to the events of the
  batch, in the order of the batch: the entry for the event at index \<open>i\<close> names the
  aggregate's keyspace and the local sequence number that event was stored under.
\<close>

lemma pointers_nth:
  "i < n \<Longrightarrow> pointers name s n ! i
     = string_bytes (name @ '':'' @ FormatUint (unat (s + 1 + of_nat i)))"
proof (induction n arbitrary: s i)
  case 0
  then show ?case by simp
next
  case (Suc n)
  show ?case
  proof (cases i)
    case 0
    then show ?thesis by simp
  next
    case (Suc j)
    with Suc.prems have "j < n" by simp
    from Suc.IH [OF this, of "s + 1"] Suc show ?thesis
      by (simp add: add.assoc)
  qed
qed

lemma Save_json_global_entries:
  assumes ev: "events = first # rest"
    and name: "name = bucketName (AggregateType first) (AggregateRootID first)"
    and ng: "name \<noteq> globalEventOrderBucketName"
    and saved: "Save_json c db events = (Ok (), db')"
    and l: "l = sequence_of (buckets db) name"
    and g: "g = sequence_of (buckets db) globalEventOrderBucketName"
    and len: "length events \<le> 2 ^ 64"
    and i: "i < length events"
  shows "lookup (entries_of (buckets db') globalEventOrderBucketName) (itob (g + 1 + of_nat i))
           = Some (string_bytes (name @ '':'' @ FormatUint (unat (l + 1 + of_nat i))))"
proof -
  from Save_json_Ok_shape [OF saved [unfolded ev] name ng] obtain vals gb where
    gb: "buckets db globalEventOrderBucketName = Some gb"
    and db': "db' = db\<lparr>buckets := (buckets db)
         (name \<mapsto> \<lparr>sequence = sequence_of (buckets db) name + of_nat (length events),
                     entries = put_run (sequence_of (buckets db) name) vals
                                 (entries_of (buckets db) name)\<rparr>,
          globalEventOrderBucketName \<mapsto>
             gb\<lparr>sequence := sequence gb + of_nat (length events),
                entries := put_run (sequence gb)
                  (pointers name (sequence_of (buckets db) name) (length events))
                  (entries gb)\<rparr>)\<rparr>"
    unfolding ev by blast
  have g': "g = sequence gb"
    using gb by (simp add: g sequence_of_def)
  have "lookup (entries_of (buckets db') globalEventOrderBucketName) (itob (g + 1 + of_nat i))
      = Some (pointers name l (length events) ! i)"
    using map_of_put_run_nth [of i "pointers name l (length events)" g "entries gb"] i len
    by (simp add: db' entries_of_def lookup_def g' l length_pointers)
  then show ?thesis
    by (simp only: pointers_nth [OF i])
qed

section \<open>Saving and reading back\<close>

lemma put_entry_append:
  "(\<forall>k'\<in>fst ` set es. k' \<noteq> k \<and> \<not> bytes_less k k') \<Longrightarrow> put_entry k v es = es @ [(k, v)]"
  by (induction k v es rule: put_entry.induct) auto

lemma put_run_after:
  assumes "\<forall>k\<in>fst ` set es. \<exists>w. k = itob w \<and> w \<le> s"
    and "unat s + length vs < 2 ^ 64"
  shows "put_run s vs es = es @ run_entries s vs"
  using assms
proof (induction vs arbitrary: s es)
  case Nil
  then show ?case by simp
next
  case (Cons v vs)
  have u: "unat (s + 1) = unat s + 1"
    using Cons.prems(2) unat_plus_of_nat [of s 1] by simp
  then have lt: "s < s + 1"
    by (simp add: word_less_nat_alt)
  have "\<forall>k'\<in>fst ` set es. k' \<noteq> itob (s + 1) \<and> \<not> bytes_less (itob (s + 1)) k'"
  proof
    fix k' assume "k' \<in> fst ` set es"
    with Cons.prems(1) obtain w where w: "k' = itob w" "w \<le> s" by blast
    with lt have "w < s + 1" by simp
    then show "k' \<noteq> itob (s + 1) \<and> \<not> bytes_less (itob (s + 1)) k'"
      by (auto simp: w itob_inj bytes_less_itob)
  qed
  then have pe: "put_entry (itob (s + 1)) v es = es @ [(itob (s + 1), v)]"
    by (rule put_entry_append)
  have "\<forall>k\<in>fst ` set (es @ [(itob (s + 1), v)]). \<exists>w. k = itob w \<and> w \<le> s + 1"
  proof
    fix k assume "k \<in> fst ` set (es @ [(itob (s + 1), v)])"
    then consider "k = itob (s + 1)" | "k \<in> fst ` set es" by auto
    then show "\<exists>w. k = itob w \<and> w \<le> s + 1"
    proof cases
      case 1
      then show ?thesis by auto
    next
      case 2
      with Cons.prems(1) obtain w where "k = itob w" "w \<le> s" by blast
      with lt show ?thesis by (intro exI [of _ w]) simp
    qed
  qed
  moreover have "unat (s + 1) + length vs < 2 ^ 64"
    using Cons.prems(2) u by simp
  ultimately have "put_run (s + 1) vs (es @ [(itob (s + 1), v)])
      = (es @ [(itob (s + 1), v)]) @ run_entries (s + 1) vs"
    by (rule Cons.IH)
  then show ?case
    by (simp add: pe)
qed

lemma Get_loop_run_entries:
  "map (DeserializeEvent s) vals = map Ok events
     \<Longrightarrow> Get_loop s (run_entries k vals) acc = Ok (acc @ events)"
proof (induction vals arbitrary: events k acc)
  case Nil
  then show ?case by simp
next
  case (Cons v vals)
  then obtain e es where "events = e # es" "DeserializeEvent s v = Ok e"
    "map (DeserializeEvent s) vals = map Ok es"
    by (cases events) auto
  with Cons.IH [of es "k + 1" "acc @ [e]"] show ?case by simp
qed

lemma validateEvents_loop_versions:
  "validateEvents_loop aid ty cv es = Ok () \<Longrightarrow> i < length es
     \<Longrightarrow> Version (es ! i) = cv + 1 + of_nat i"
proof (induction es arbitrary: cv i)
  case Nil
  then show ?case by simp
next
  case (Cons e es)
  from Cons.prems(1) have v: "Version e = cv + 1"
    and rest: "validateEvents_loop aid ty (Version e) es = Ok ()"
    by (auto split: if_splits)
  show ?case
  proof (cases i)
    case 0
    with v show ?thesis by simp
  next
    case (Suc j)
    with Cons.prems(2) have "j < length es" by simp
    from Cons.IH [OF rest this] Suc v show ?thesis by simp
  qed
qed

text \<open>
  Where the aggregate has a bucket of its own, what is saved is read back. Let \<open>B\<close> be a
  non-empty batch for one aggregate whose bucket does not exist in the store yet and is
  not the global log, and let the serializer decode what it encodes of \<open>B\<close>. If
  \<open>Save B\<close> succeeds, then \<open>Get\<close> from version 0 returns exactly the events of \<open>B\<close>, in
  the same order, and their versions are \<open>1, ..., len(B)\<close>.
\<close>

theorem Save_then_Get_fresh:
  assumes ev: "events = first # rest"
    and ty: "aggregateType = AggregateType first"
    and aid: "aggregateID = AggregateRootID first"
    and fresh: "buckets db (aggregateKey aggregateType aggregateID) = None"
    and ng: "aggregateKey aggregateType aggregateID \<noteq> globalEventOrderBucketName"
    and len: "length events < 2 ^ 63"
    and roundtrip: "\<forall>e\<in>set events. \<forall>v. SerializeEvent s e = Ok v \<longrightarrow> DeserializeEvent s v = Ok e"
    and saved: "Save s db events = (Ok (), db')"
  shows "Get s db' aggregateID aggregateType 0 = Ok events
       \<and> map Version events = map of_nat [1..<Suc (length events)]"
proof -
  let ?name = "aggregateKey aggregateType aggregateID"
  have name: "?name = aggregateKey (AggregateType first) (AggregateRootID first)"
    by (simp add: ty aid)
  have s0: "sequence_of (buckets db) ?name = 0" and e0: "entries_of (buckets db) ?name = []"
    using fresh by (simp_all add: sequence_of_def entries_of_def)
  from Save_Ok_shape [OF saved [unfolded ev] name ng] obtain vals gb cv where
    op: "opened db"
    and cv0: "lastVersion s (entries_of (buckets db) ?name) = Ok cv"
    and valid0: "validateEvents (AggregateRootID first) cv (first # rest) = Ok ()"
    and vals0: "map (SerializeEvent s) (first # rest) = map Ok vals"
    and db0: "db' = db\<lparr>buckets := (buckets db)
         (?name \<mapsto> \<lparr>sequence = sequence_of (buckets db) ?name + of_nat (length (first # rest)),
                     entries = put_run (sequence_of (buckets db) ?name) vals
                                 (entries_of (buckets db) ?name)\<rparr>,
          globalEventOrderBucketName \<mapsto>
             gb\<lparr>sequence := sequence gb + of_nat (length (first # rest)),
                entries := put_run (sequence gb) vals (entries gb)\<rparr>)\<rparr>"
    by blast
  have cv: "lastVersion s [] = Ok cv"
    using cv0 by (simp only: e0)
  have valid: "validateEvents aggregateID cv events = Ok ()"
    using valid0 by (simp only: ev aid)
  have vals: "map (SerializeEvent s) events = map Ok vals"
    using vals0 by (simp only: ev)
  have bn: "buckets db' ?name = Some \<lparr>sequence = of_nat (length events), entries = put_run 0 vals []\<rparr>"
    unfolding db0 s0 e0 using ng by (simp add: ev)
  have op': "opened db'"
    using op by (simp add: db0)
  have lv: "length vals = length events"
    using vals by (metis length_map)
  have "cv = 0"
    using cv by (simp add: lastVersion_def cursor_Last_def)
  have run: "put_run 0 vals [] = run_entries 0 vals"
    using put_run_after [of "[]" 0 vals] len lv by simp
  obtain v vs where vvs: "vals = v # vs"
    using lv ev by (cases vals) auto
  have seek: "cursor_Seek (itob 1) (run_entries 0 vals) = run_entries 0 vals"
    by (simp add: vvs bytes_less_itob)
  have dec: "map (DeserializeEvent s) vals = map Ok events"
  proof (rule nth_equalityI)
    show "length (map (DeserializeEvent s) vals) = length (map Ok events)"
      by (simp add: lv)
  next
    fix i assume "i < length (map (DeserializeEvent s) vals)"
    then have i: "i < length events" by (simp add: lv)
    then have "SerializeEvent s (events ! i) = Ok (vals ! i)"
      using vals lv by (metis nth_map)
    with roundtrip i have "DeserializeEvent s (vals ! i) = Ok (events ! i)"
      by (metis nth_mem)
    with i lv show "map (DeserializeEvent s) vals ! i = map Ok events ! i"
      by simp
  qed
  have get: "Get s db' aggregateID aggregateType 0 = Ok events"
    unfolding Get_def Let_def
    using op' Get_loop_run_entries [OF dec, of 0 "[]"]
    by (simp add: Begin_def bn run seek)
  have "validateEvents_loop aggregateID (AggregateType first) 0 events = Ok ()"
    using valid by (simp add: validateEvents_def ev \<open>cv = 0\<close>)
  then have ver: "\<And>i. i < length events \<Longrightarrow> Version (events ! i) = of_nat (Suc i)"
    using validateEvents_loop_versions [of aggregateID "AggregateType first" 0 events] by simp
  have "map Version events = map of_nat [1..<Suc (length events)]"
  proof (rule nth_equalityI)
    show "length (map Version events) = length (map of_nat [1..<Suc (length events)] :: 64 word list)"
      by (simp del: upt_Suc)
  next
    fix i assume "i < length (map Version events)"
    then have i: "i < length events" by simp
    then have "(map of_nat [1..<Suc (length events)] :: 64 word list) ! i = of_nat (Suc i)"
      by (simp del: upt_Suc of_nat_Suc)
    with ver [OF i] i show "map Version events ! i = map of_nat [1..<Suc (length events)] ! i"
      by (simp del: upt_Suc of_nat_Suc)
  qed
  with get show ?thesis by blast
qed


text \<open>The scenario of the specification: two events for \<open>("user", "u1")\<close>.\<close>

theorem Save_then_Get_fresh_witness:
  "buckets MustOpenBBolt (aggregateKey ''user'' ''u1'') = None
   \<and> fst (Save table_serializer MustOpenBBolt [ev_created, ev_renamed]) = Ok ()
   \<and> Get table_serializer (snd (Save table_serializer MustOpenBBolt [ev_created, ev_renamed]))
         ''u1'' ''user'' 0 = Ok [ev_created, ev_renamed]
   \<and> map Version [ev_created, ev_renamed] = [1, 2]"
proof -
  let ?events = "[ev_created, ev_renamed]"
  let ?db' = "snd (Save table_serializer MustOpenBBolt ?events)"
  have ty: "''user'' = AggregateType ev_created" and aid: "''u1'' = AggregateRootID ev_created"
    by (simp_all add: ev_created_def)
  have fresh: "buckets MustOpenBBolt (aggregateKey ''user'' ''u1'') = None"
    and ng: "aggregateKey ''user'' ''u1'' \<noteq> globalEventOrderBucketName"
    by (simp_all add: run_defs)
  have len: "length ?events < 2 ^ 63"
    by simp
  have roundtrip: "\<forall>e\<in>set ?events. \<forall>v. SerializeEvent table_serializer e = Ok v
      \<longrightarrow> DeserializeEvent table_serializer v = Ok e"
    by (simp add: table_serializer_def ev_created_def ev_renamed_def ev_order_def)
  have ok: "fst (Save table_serializer MustOpenBBolt ?events) = Ok ()"
    by (simp add: run_defs)
  then have saved: "Save table_serializer MustOpenBBolt ?events = (Ok (), ?db')"
    by (simp add: prod_eq_iff)
  from Save_then_Get_fresh [OF refl ty aid fresh ng len roundtrip saved] fresh ok
  show ?thesis by simp
qed

text \<open>
  Claim C1: after a valid non-empty batch \<open>B\<close> has been saved for a fresh aggregate,
  \<open>Get\<close> from version 0 returns exactly \<open>B\<close>. The code does not keep this for the
  aggregate of type \<open>global_event\<close> with id \<open>order\<close>: without the \<open>events_\<close> prefix of
  the comment its bucket name is \<open>global_event_order\<close>, the global log itself. On a
  newly opened store nothing has been saved for it; saving one valid event, which the
  serializer round-trips, succeeds, and \<open>Get\<close> then returns that event twice: once from
  the aggregate's put and once from the global log's.
\<close>

theorem Save_then_Get_global_name_collision:
  "entries_of (buckets MustOpenBBolt) (aggregateKey ''global_event'' ''order'') = []
   \<and> AggregateType ev_order = ''global_event'' \<and> AggregateRootID ev_order = ''order''
   \<and> Version ev_order = 1 \<and> Reason ev_order \<noteq> []
   \<and> SerializeEvent table_serializer ev_order = Ok [3]
   \<and> DeserializeEvent table_serializer [3] = Ok ev_order
   \<and> fst (Save table_serializer MustOpenBBolt [ev_order]) = Ok ()
   \<and> Get table_serializer (snd (Save table_serializer MustOpenBBolt [ev_order]))
         ''order'' ''global_event'' 0 = Ok [ev_order, ev_order]
   \<and> Get table_serializer (snd (Save table_serializer MustOpenBBolt [ev_order]))
         ''order'' ''global_event'' 0 \<noteq> Ok [ev_order]"
  by (simp add: run_defs)

section \<open>Global replay\<close>

text \<open>
  Claim C4 says that \<open>GlobalGet\<close> never returns more than \<open>count\<close> events, also for
  \<open>count = 0\<close>. The loop compares the counter with \<open>count\<close> only after it has appended
  an event: on a store that holds one event, \<open>GlobalGet(1, 0)\<close> returns that event, and
  so does \<open>GlobalGet(1, -1)\<close>.
\<close>

theorem GlobalGet_count_zero_returns_an_event:
  "fst (Save table_serializer MustOpenBBolt [ev_created]) = Ok ()
   \<and> GlobalGet table_serializer (snd (Save table_serializer MustOpenBBolt [ev_created])) 1 0
       = Ok [ev_created]
   \<and> GlobalGet table_serializer (snd (Save table_serializer MustOpenBBolt [ev_created])) 1 (- 1)
       = Ok [ev_created]"
  by (simp add: run_defs)

text \<open>For a count of at least 1 the bound holds.\<close>

lemma GlobalGet_loop_at_most_count:
  assumes "GlobalGet_loop s count es acc counter = Ok evs"
    and "counter = int (length acc)" and "counter < count"
  shows "int (length evs) \<le> count"
  using assms
proof (induction es arbitrary: acc counter)
  case Nil
  then show ?case by simp
next
  case (Cons entry es)
  obtain k obj where entry: "entry = (k, obj)" by (cases entry)
  show ?case
  proof (cases "DeserializeEvent s obj")
    case (Ok event)
    show ?thesis
    proof (cases "counter + 1 \<ge> count")
      case True
      with Cons.prems Ok have "evs = acc @ [event]" by (simp add: entry)
      with Cons.prems(2,3) show ?thesis by simp
    next
      case False
      with Cons.prems Ok have "GlobalGet_loop s count es (acc @ [event]) (counter + 1) = Ok evs"
        by (simp add: entry)
      moreover have "counter + 1 = int (length (acc @ [event]))"
        using Cons.prems(2) by simp
      moreover have "counter + 1 < count"
        using False by simp
      ultimately show ?thesis by (rule Cons.IH)
    qed
  next
    case (Err e)
    with Cons.prems show ?thesis by (auto simp: entry)
  next
    case Panic
    with Cons.prems show ?thesis by (simp add: entry)
  qed
qed

lemma GlobalGet_at_most_count:
  assumes "1 \<le> count" and "GlobalGet s db start count = Ok evs"
  shows "int (length evs) \<le> count"
proof (cases "opened db")
  case False
  with assms show ?thesis by (auto simp: GlobalGet_def Begin_def)
next
  case True
  with assms(2) obtain evBucket :: Bucket where
    "GlobalGet_loop s count (cursor_Seek (itob start) (entries evBucket)) [] 0 = Ok evs"
    by (auto simp: GlobalGet_def Begin_def split: option.splits)
  from GlobalGet_loop_at_most_count [OF this] assms(1) show ?thesis by simp
qed

text \<open>
  The events returned are decoded from entries at or after the cursor's start, and in a
  bucket whose keys ascend these are the entries whose key is not smaller than the key of
  \<open>start\<close>.
\<close>

lemma bytes_less_trans:
  "bytes_less a b \<Longrightarrow> bytes_less b c \<Longrightarrow> bytes_less a c"
proof (induction a b arbitrary: c rule: bytes_less.induct)
  case 1
  then show ?case by simp
next
  case (2 y ys)
  then show ?case by (cases c) simp_all
next
  case (3 x xs)
  then show ?case by simp
next
  case (4 x xs y ys)
  from "4.prems"(2) obtain z zs where c: "c = z # zs"
    by (cases c) simp_all
  from "4.prems" have xy: "x < y \<or> (x = y \<and> bytes_less xs ys)"
    and yz: "y < z \<or> (y = z \<and> bytes_less ys zs)"
    by (simp_all add: c)
  from xy show ?case
  proof
    assume "x < y"
    with yz have "x < z" by auto
    then show ?thesis by (simp add: c)
  next
    assume xy': "x = y \<and> bytes_less xs ys"
    from yz show ?thesis
    proof
      assume "y < z"
      with xy' show ?thesis by (simp add: c)
    next
      assume yz': "y = z \<and> bytes_less ys zs"
      with xy' "4.IH" have "bytes_less xs zs" by blast
      with xy' yz' show ?thesis by (simp add: c)
    qed
  qed
qed

lemma cursor_Seek_keys:
  assumes "sorted_wrt (\<lambda>a b. bytes_less (fst a) (fst b)) es"
    and "(k', v) \<in> set (cursor_Seek k es)"
  shows "(k', v) \<in> set es \<and> \<not> bytes_less k' k"
  using assms
proof (induction es)
  case Nil
  then show ?case by simp
next
  case (Cons entry es)
  obtain h w where entry: "entry = (h, w)" by (cases entry)
  show ?case
  proof (cases "bytes_less h k")
    case True
    with Cons show ?thesis by (auto simp: entry)
  next
    case False
    with Cons.prems(2) have "(k', v) = (h, w) \<or> (k', v) \<in> set es"
      by (simp add: entry)
    then show ?thesis
    proof
      assume "(k', v) = (h, w)"
      with False show ?thesis by (simp add: entry)
    next
      assume mem: "(k', v) \<in> set es"
      with Cons.prems(1) have "bytes_less h k'"
        by (auto simp: entry)
      with False have "\<not> bytes_less k' k"
        using bytes_less_trans by blast
      with mem show ?thesis by simp
    qed
  qed
qed

lemma GlobalGet_loop_decodes:
  assumes "GlobalGet_loop s count es acc counter = Ok evs" and "e \<in> set evs"
  shows "e \<in> set acc \<or> (\<exists>(k, obj)\<in>set es. DeserializeEvent s obj = Ok e)"
  using assms
proof (induction es arbitrary: acc counter)
  case Nil
  then show ?case by auto
next
  case (Cons entry es)
  obtain k obj where entry: "entry = (k, obj)" by (cases entry)
  show ?case
  proof (cases "DeserializeEvent s obj")
    case (Ok event)
    show ?thesis
    proof (cases "counter + 1 \<ge> count")
      case True
      with Cons.prems Ok show ?thesis by (auto simp: entry)
    next
      case False
      with Cons.prems Ok have "GlobalGet_loop s count es (acc @ [event]) (counter + 1) = Ok evs"
        by (simp add: entry)
      from Cons.IH [OF this Cons.prems(2)] Ok show ?thesis by (auto simp: entry)
    qed
  next
    case (Err x)
    with Cons.prems show ?thesis by (auto simp: entry)
  next
    case Panic
    with Cons.prems show ?thesis by (simp add: entry)
  qed
qed

lemma GlobalGet_not_before_start:
  assumes "GlobalGet s db start count = Ok evs" and "e \<in> set evs"
    and "sorted_wrt (\<lambda>a b. bytes_less (fst a) (fst b))
           (entries_of (buckets db) globalEventOrderBucketName)"
  shows "\<exists>(k, obj)\<in>set (entries_of (buckets db) globalEventOrderBucketName).
           DeserializeEvent s obj = Ok e \<and> \<not> bytes_less k (itob start)"
proof -
  from assms(1,2) have op: "opened db"
    by (auto simp: GlobalGet_def Begin_def split: if_splits)
  with assms(1) obtain evBucket :: Bucket where
    b: "buckets db globalEventOrderBucketName = Some evBucket"
    and loop: "GlobalGet_loop s count (cursor_Seek (itob start) (entries evBucket)) [] 0 = Ok evs"
    by (auto simp: GlobalGet_def Begin_def split: option.splits)
  from GlobalGet_loop_decodes [OF loop assms(2)] obtain k obj where
    "(k, obj) \<in> set (cursor_Seek (itob start) (entries evBucket))"
    "DeserializeEvent s obj = Ok e"
    by auto
  moreover from assms(3) b have "sorted_wrt (\<lambda>a b. bytes_less (fst a) (fst b)) (entries evBucket)"
    by (simp add: entries_of_def)
  ultimately show ?thesis
    using cursor_Seek_keys [of "entries evBucket" k obj "itob start"] b
    by (auto simp: entries_of_def)
qed


text \<open>Puts keep the keys of a bucket ascending.\<close>

lemma bytes_less_total:
  "a \<noteq> b \<Longrightarrow> \<not> bytes_less a b \<Longrightarrow> bytes_less b a"
proof (induction a b rule: bytes_less.induct)
  case (4 x xs y ys)
  then show ?case by (cases "x = y") auto
qed simp_all

lemma set_put_entry: "set (put_entry k v es) \<subseteq> insert (k, v) (set es)"
  by (induction k v es rule: put_entry.induct) auto

lemma sorted_put_entry:
  assumes "sorted_wrt (\<lambda>a b. bytes_less (fst a) (fst b)) es"
  shows "sorted_wrt (\<lambda>a b. bytes_less (fst a) (fst b)) (put_entry k v es)"
  using assms
proof (induction k v es rule: put_entry.induct)
  case (1 k v)
  then show ?case by simp
next
  case (2 k v k' v' rest)
  show ?case
  proof (cases "k = k'")
    case True
    with "2.prems" show ?thesis by simp
  next
    case ne: False
    show ?thesis
    proof (cases "bytes_less k k'")
      case True
      with "2.prems" have "\<forall>x\<in>set rest. bytes_less k (fst x)"
        using bytes_less_trans by auto
      with True ne "2.prems" show ?thesis by simp
    next
      case False
      with ne have lt: "bytes_less k' k"
        using bytes_less_total by blast
      have "\<forall>x\<in>set (put_entry k v rest). bytes_less k' (fst x)"
        using set_put_entry [of k v rest] "2.prems" lt by auto
      moreover have "sorted_wrt (\<lambda>a b. bytes_less (fst a) (fst b)) (put_entry k v rest)"
        using "2.IH" ne False "2.prems" by simp
      ultimately show ?thesis using ne False by simp
    qed
  qed
qed

lemma sorted_put_run:
  "sorted_wrt (\<lambda>a b. bytes_less (fst a) (fst b)) es
     \<Longrightarrow> sorted_wrt (\<lambda>a b. bytes_less (fst a) (fst b)) (put_run s vs es)"
  by (induction vs arbitrary: s es) (simp_all add: sorted_put_entry)

section \<open>Valid batches are saved\<close>

text \<open>
  The write loop succeeds when both buckets exist and every event of the batch serializes
  to a value the engine accepts.
\<close>

lemma Save_loop_succeeds:
  assumes "tx name \<noteq> None" and "tx globalEventOrderBucketName \<noteq> None"
    and "\<forall>e\<in>set events. \<exists>v. SerializeEvent s e = Ok v \<and> int (length v) \<le> 2147483646"
  shows "\<exists>tx'. Save_loop s name events tx = Ok tx'"
  using assms
proof (induction events arbitrary: tx)
  case Nil
  then show ?case by simp
next
  case (Cons e es)
  from Cons.prems(1) obtain b where b: "tx name = Some b" by blast
  from Cons.prems(3) obtain v where v: "SerializeEvent s e = Ok v"
    and small: "int (length v) \<le> 2147483646" by auto
  define tx1 where "tx1 = tx(name \<mapsto> b\<lparr>sequence := sequence b + 1\<rparr>)"
  define tx2 where "tx2 = tx1(name \<mapsto> b\<lparr>sequence := sequence b + 1,
      entries := put_entry (itob (sequence b + 1)) v (entries b)\<rparr>)"
  have n1: "NextSequence tx name = Ok (sequence b + 1, tx1)"
    using b by (simp add: NextSequence_def tx1_def)
  have p1: "Put tx1 name (itob (sequence b + 1)) v = Ok tx2"
    using small by (simp add: Put_def tx1_def tx2_def length_itob)
  from Cons.prems(2) have "tx2 globalEventOrderBucketName \<noteq> None"
    by (simp add: tx2_def tx1_def)
  then obtain gb where gb: "tx2 globalEventOrderBucketName = Some gb" by blast
  define tx3 where "tx3 = tx2(globalEventOrderBucketName \<mapsto> gb\<lparr>sequence := sequence gb + 1\<rparr>)"
  define tx4 where "tx4 = tx3(globalEventOrderBucketName \<mapsto> gb\<lparr>sequence := sequence gb + 1,
      entries := put_entry (itob (sequence gb + 1)) v (entries gb)\<rparr>)"
  have n2: "NextSequence tx2 globalEventOrderBucketName = Ok (sequence gb + 1, tx3)"
    using gb by (simp add: NextSequence_def tx3_def)
  have p2: "Put tx3 globalEventOrderBucketName (itob (sequence gb + 1)) v = Ok tx4"
    using small by (simp add: Put_def tx3_def tx4_def length_itob)
  have "tx4 name \<noteq> None" "tx4 globalEventOrderBucketName \<noteq> None"
    by (simp_all add: tx4_def tx3_def tx2_def)
  moreover from Cons.prems(3) have
    "\<forall>e\<in>set es. \<exists>v. SerializeEvent s e = Ok v \<and> int (length v) \<le> 2147483646"
    by simp
  ultimately obtain tx' where "Save_loop s name es tx4 = Ok tx'"
    using Cons.IH by blast
  then show ?case
    by (simp add: n1 v p1 n2 p2)
qed

lemma Save_succeeds:
  assumes ev: "events = first # rest" and op: "opened db"
    and g: "buckets db globalEventOrderBucketName \<noteq> None"
    and cv: "lastVersion s (entries_of (buckets db)
               (aggregateKey (AggregateType first) (AggregateRootID first))) = Ok currentVersion"
    and valid: "validateEvents (AggregateRootID first) currentVersion events = Ok ()"
    and ser: "\<forall>e\<in>set events. \<exists>v. SerializeEvent s e = Ok v \<and> int (length v) \<le> 2147483646"
  shows "fst (Save s db events) = Ok ()"
proof -
  let ?name = "aggregateKey (AggregateType first) (AggregateRootID first)"
  define tx0 where "tx0 = (case buckets db ?name of
      None \<Rightarrow> (buckets db)(?name \<mapsto> \<lparr>sequence = 0, entries = []\<rparr>)
    | Some b \<Rightarrow> buckets db)"
  define b where "b = \<lparr>sequence = sequence_of (buckets db) ?name,
                        entries = entries_of (buckets db) ?name\<rparr>"
  have beg: "Begin db = Ok (buckets db)"
    using op by (simp add: Begin_def)
  have cr: "(if buckets db ?name = None then createBucket ?name (buckets db) else Ok (buckets db))
      = Ok tx0"
    by (auto simp: tx0_def createBucket_absent aggregateKey_not_empty)
  have b0: "tx0 ?name = Some b"
    by (auto simp: tx0_def b_def sequence_of_def entries_of_def split: option.splits)
  have cv': "lastVersion s (entries b) = Ok currentVersion"
    using cv by (simp add: b_def)
  have g0: "tx0 globalEventOrderBucketName \<noteq> None"
    using g by (auto simp: tx0_def split: option.splits)
  then obtain gb where gb: "tx0 globalEventOrderBucketName = Some gb" by blast
  from b0 have "tx0 ?name \<noteq> None" by simp
  from Save_loop_succeeds [OF this g0 ser] obtain tx1 where
    loop: "Save_loop s ?name (first # rest) tx0 = Ok tx1"
    unfolding ev by blast
  show ?thesis
    unfolding ev Save_def
    by (simp add: Let_def Commit_def beg cr b0 cv' valid [unfolded ev] gb loop
        del: Save_loop.simps)
qed

end
